theory Spec2Isabelle
  imports Main "HOL-Library.Sublist"
begin

section \<open>The distributed query dispatcher (algorithms/distributed\_query/main.go)\<close>

text \<open>
  The program queries several database replicas in parallel, retries a replica that
  fails, and returns the first successful answer. One goroutine per replica runs the retry
  loop (the worker), one goroutine closes the result channel once the wait group is
  drained (the janitor), and the calling goroutine runs the select loop (the collector).

  The sequential code of the worker and of the collector is embedded as functions of
  what the goroutine observes (the replies of its replica, the state of the context, the
  case its select takes). The interplay of the goroutines is embedded as a transition
  system driven by a schedule, so that a statement about every schedule is a statement
  about every interleaving.
\<close>

subsection \<open>Durations and the package constants\<close>

text \<open>A \<^verbatim>\<open>time.Duration\<close> counts nanoseconds.\<close>

type_synonym duration = int

definition Millisecond :: duration where
  "Millisecond = 1000000"

definition Second :: duration where
  "Second = 1000 * Millisecond"

definition maxAttempts :: nat where
  "maxAttempts = 3"

definition retryInterval :: duration where
  "retryInterval = 500 * Millisecond"

definition totalTimeout :: duration where
  "totalTimeout = 2 * Second"

subsection \<open>Errors\<close>

text \<open>
  A Go error value is the package's sentinel \<^verbatim>\<open>ErrNotFound\<close>, some other
  error made by \<^verbatim>\<open>errors.New\<close> (or \<^verbatim>\<open>fmt.Errorf\<close> without
  \<^verbatim>\<open>%w\<close>), or an error that wraps another one (\<^verbatim>\<open>fmt.Errorf\<close> with
  \<^verbatim>\<open>%w\<close>). The sentinel is a constructor of its own: an error made elsewhere with the
  same text is a different value, as a different pointer is in Go. A nil error is
  \<open>None\<close> of \<open>error option\<close>. Errors with an \<^verbatim>\<open>Is\<close> method of their
  own, or that wrap several errors at once, are not among these values.
\<close>

datatype error =
    ErrNotFound
  | ErrorString string
  | WrapError string error

text \<open>\<^verbatim>\<open>err.Error()\<close>: the sentinel is \<^verbatim>\<open>errors.New("not found")\<close>.\<close>

fun Error :: "error \<Rightarrow> string" where
  "Error ErrNotFound = ''not found''"
| "Error (ErrorString s) = s"
| "Error (WrapError s e) = s"

text \<open>
  \<^verbatim>\<open>errors.Is(err, target)\<close> of the standard library: the error itself or one
  of the errors it wraps, following \<^verbatim>\<open>Unwrap\<close>, is equal to the target.
\<close>

fun errors_Is :: "error \<Rightarrow> error \<Rightarrow> bool" where
  "errors_Is (WrapError s e) target = (WrapError s e = target \<or> errors_Is e target)"
| "errors_Is e target = (e = target)"

subsection \<open>Responses\<close>

record Response =
  Message :: string
  Err :: "error option"
  Host :: string

text \<open>
  The test of line 68, \<^verbatim>\<open>err == nil || errors.Is(err, ErrNotFound)\<close>: the reply ends
  the worker's loop.
\<close>

fun terminal :: "error option \<Rightarrow> bool" where
  "terminal None = True"
| "terminal (Some e) = errors_Is e ErrNotFound"

subsection \<open>The worker: the retry loop of one replica\<close>

text \<open>
  What the worker observes in the iteration \<open>i\<close> of its loop: whether
  \<^verbatim>\<open>ctx.Err() != nil\<close> at the head of the iteration, what
  \<^verbatim>\<open>rep.DoQuery\<close> returns, and which case the select of the backoff takes.
  The replica is any implementation of \<^verbatim>\<open>DatabaseHost\<close>: nothing is assumed of
  its answers, which may change from call to call. A call that never returns gives no
  observation; where the goroutines run together, below, it is a worker whose answer the
  schedule never brings.
\<close>

datatype wake = TimerFired | CtxDone

record observation =
  ctx_cancelled :: bool
  reply :: "string \<times> error option"
  woke :: wake

text \<open>What the worker does, in order.\<close>

datatype weffect =
    CtxErrCheck bool
  | DoQuery nat
  | Send Response
  | Backoff duration wake
  | WgDone

text \<open>
  The loop \<^verbatim>\<open>for i := 0; i < maxAttempts; i++\<close> of lines 59 to 84, from the
  iteration \<open>i\<close> on. The response sent leaves \<^verbatim>\<open>Host\<close> at its zero value.
\<close>

function worker_loop :: "nat \<Rightarrow> (nat \<Rightarrow> observation) \<Rightarrow> weffect list" where
  "worker_loop i env =
     (if i < maxAttempts then
        (if ctx_cancelled (env i) then [CtxErrCheck True]
         else
           (case reply (env i) of (resp, err) \<Rightarrow>
              if terminal err then
                [CtxErrCheck False, DoQuery i,
                 Send \<lparr>Message = resp, Err = err, Host = ''''\<rparr>]
              else
                (case woke (env i) of
                   TimerFired \<Rightarrow>
                     [CtxErrCheck False, DoQuery i, Backoff retryInterval TimerFired]
                       @ worker_loop (i + 1) env
                 | CtxDone \<Rightarrow>
                     [CtxErrCheck False, DoQuery i, Backoff retryInterval CtxDone])))
      else [])"
  by pat_completeness auto
termination
  by (relation "measure (\<lambda>(i, env). maxAttempts - i)") auto

declare worker_loop.simps [simp del]

text \<open>The goroutine of lines 56 to 85: the loop, then the deferred \<^verbatim>\<open>wg.Done()\<close>.\<close>

definition worker :: "(nat \<Rightarrow> observation) \<Rightarrow> weffect list" where
  "worker env = worker_loop 0 env @ [WgDone]"

text \<open>
  The attempts and the delays of a run, in order: what is left of a trace when only the
  calls of \<^verbatim>\<open>DoQuery\<close> and the waits of the backoff are kept.
\<close>

datatype wphase = Attempt | Delay duration

fun phases :: "weffect list \<Rightarrow> wphase list" where
  "phases [] = []"
| "phases (DoQuery i # es) = Attempt # phases es"
| "phases (Backoff d w # es) = Delay d # phases es"
| "phases (e # es) = phases es"

subsection \<open>The collector: the select loop of the caller\<close>

text \<open>
  The case that the select of line 97 takes: a response received from
  \<^verbatim>\<open>resCh\<close>, the receive that finds the channel closed and empty, or
  \<^verbatim>\<open>ctx.Done()\<close>.
\<close>

datatype selected = Recv Response | RecvClosed | Done

text \<open>What the collector does besides returning: it prints, and it cancels the context.\<close>

datatype ceffect = Printf string "string list" | Cancel

text \<open>
  The two errors of lines 102 and 123. \<^verbatim>\<open>%s\<close> of
  \<^verbatim>\<open>totalTimeout\<close> prints \<^verbatim>\<open>2s\<close>, as the comment of line 206 expects.
\<close>

definition errAllFailed :: error where
  "errAllFailed = ErrorString ''all replicas failed after multiple retries''"

definition errTimedOut :: error where
  "errTimedOut = ErrorString ''query timed out after 2s''"

text \<open>
  One iteration of the loop of lines 96 to 125: what it does, and what it returns if it
  returns. A response with an error that is not the sentinel falls out of the select
  and the loop goes on, like the \<^verbatim>\<open>continue\<close> of line 118 without the print.
\<close>

fun on_select :: "selected \<Rightarrow> ceffect list \<times> (string \<times> error option) option" where
  "on_select RecvClosed = ([], Some ('''', Some errAllFailed))"
| "on_select (Recv resp) =
     (case Err resp of
        None \<Rightarrow>
          ([Printf (''Success from %s: %s'' @ [CHR 0x0A]) [Host resp, Message resp], Cancel],
           Some (Message resp, None))
      | Some e \<Rightarrow>
          if errors_Is e ErrNotFound
          then ([Printf (''Result from %s: %s'' @ [CHR 0x0A]) [Host resp, Error e]], None)
          else ([], None))"
| "on_select Done = ([], Some ('''', Some errTimedOut))"

text \<open>
  The loop, on the cases its select takes one after the other. The result is \<open>None\<close>
  when the cases run out before the loop returns: the collector is still waiting.
\<close>

fun collector :: "selected list \<Rightarrow> ceffect list \<times> (string \<times> error option) option" where
  "collector [] = ([], None)"
| "collector (c # cs) =
     (case on_select c of
        (fx, Some r) \<Rightarrow> (fx, Some r)
      | (fx, None) \<Rightarrow> (case collector cs of (fx', r) \<Rightarrow> (fx @ fx', r)))"

subsection \<open>The goroutines together\<close>

text \<open>
  Where the goroutine of a replica stands: at the head of the iteration \<open>i\<close>, inside
  \<^verbatim>\<open>DoQuery\<close> of the attempt \<open>i\<close>, in the select of the backoff after it,
  returned from the loop with the deferred \<^verbatim>\<open>wg.Done()\<close> still to run, or gone.
\<close>

datatype goroutine = LoopHead nat | InQuery nat | InBackoff nat | Returning | Finished

text \<open>
  \<^verbatim>\<open>ctx.Err()\<close> is nil, \<^verbatim>\<open>context.Canceled\<close> or
  \<^verbatim>\<open>context.DeadlineExceeded\<close>; the first cause stays.
\<close>

definition Canceled :: error where
  "Canceled = ErrorString ''context canceled''"

definition DeadlineExceeded :: error where
  "DeadlineExceeded = ErrorString ''context deadline exceeded''"

text \<open>
  One call of \<^verbatim>\<open>DistributedQuery\<close>: the context (the duration given to
  \<^verbatim>\<open>context.WithTimeout\<close> and the error of the context), the buffered channel
  \<^verbatim>\<open>resCh\<close> with its capacity, the counter of the wait group, the goroutines of
  the replicas, and the caller: what it has printed and, once it has returned, its result.
  \<open>panicked\<close> records a send on the closed channel, which ends the program.
\<close>

record session =
  query :: string
  timeout :: duration
  ctx_err :: "error option"
  resCh :: "Response list"
  capacity :: nat
  closed :: bool
  wg :: int
  workers :: "goroutine list"
  caller_effects :: "ceffect list"
  result :: "(string \<times> error option) option"
  panicked :: bool

text \<open>
  Lines 44 to 57, up to the start of the goroutines: the context with
  \<^verbatim>\<open>totalTimeout\<close>, \<^verbatim>\<open>make(chan Response, len(replicas))\<close>,
  \<^verbatim>\<open>wg.Add(len(replicas))\<close>, one goroutine for each replica. What a replica
  answers is not part of the state: the schedule brings it.
\<close>

definition DistributedQuery_init :: "string \<Rightarrow> 'h list \<Rightarrow> session" where
  "DistributedQuery_init q replicas =
     \<lparr>query = q, timeout = totalTimeout, ctx_err = None, resCh = [],
      capacity = length replicas, closed = False, wg = int (length replicas),
      workers = map (\<lambda>rep. LoopHead 0) replicas, caller_effects = [], result = None,
      panicked = False\<rparr>"

text \<open>The steps a schedule is made of: which goroutine moves, and what it is given.\<close>

datatype action =
    Check nat
  | Reply nat string "error option"
  | Wake nat wake
  | Exit nat
  | Close
  | Select_resCh
  | Select_Done
  | Deadline

definition goroutine_at :: "session \<Rightarrow> nat \<Rightarrow> goroutine option" where
  "goroutine_at s k = (if k < length (workers s) then Some (workers s ! k) else None)"

definition become :: "nat \<Rightarrow> goroutine \<Rightarrow> session \<Rightarrow> session" where
  "become k g s = s\<lparr>workers := (workers s)[k := g]\<rparr>"

text \<open>
  The caller after one iteration of its loop. \<^verbatim>\<open>cancel()\<close> sets the error of the
  context unless it is set already; the deferred \<^verbatim>\<open>cancel()\<close> of line 45 runs
  when the function returns.
\<close>

definition conclude ::
  "ceffect list \<times> (string \<times> error option) option \<Rightarrow> session \<Rightarrow> session" where
  "conclude out s =
     s\<lparr>caller_effects := caller_effects s @ fst out, result := snd out,
       ctx_err := (if ctx_err s = None \<and> (Cancel \<in> set (fst out) \<or> snd out \<noteq> None)
                   then Some Canceled else ctx_err s)\<rparr>"

text \<open>
  One step. \<open>None\<close>: the goroutine named cannot take this step now (it is elsewhere
  in its code, or it is blocked).
  \<^item> \<open>Check k\<close>: the worker \<open>k\<close> tests \<^verbatim>\<open>i < maxAttempts\<close> and
    \<^verbatim>\<open>ctx.Err() != nil\<close>, and calls its replica or returns.
  \<^item> \<open>Reply k resp err\<close>: \<^verbatim>\<open>DoQuery\<close> returns; the worker sends and returns, or
    enters the select of the backoff. A send blocks while the buffer is full.
  \<^item> \<open>Wake k w\<close>: the select of the backoff takes the timer, or
    \<^verbatim>\<open>ctx.Done()\<close> when the context is cancelled.
  \<^item> \<open>Exit k\<close>: the deferred \<^verbatim>\<open>wg.Done()\<close>.
  \<^item> \<open>Close\<close>: the janitor of lines 90 to 93, when \<^verbatim>\<open>wg.Wait()\<close> returns.
  \<^item> \<open>Select_resCh\<close>, \<open>Select_Done\<close>: the select of the caller takes the receive
    (a buffered response, or the closed channel once it is empty) or
    \<^verbatim>\<open>ctx.Done()\<close>.
  \<^item> \<open>Deadline\<close>: the timer of \<^verbatim>\<open>context.WithTimeout\<close> fires.
\<close>

fun step' :: "action \<Rightarrow> session \<Rightarrow> session option" where
  "step' (Check k) s =
     (case goroutine_at s k of
        Some (LoopHead i) \<Rightarrow>
          Some (become k (if i < maxAttempts \<and> ctx_err s = None then InQuery i else Returning) s)
      | _ \<Rightarrow> None)"
| "step' (Reply k resp err) s =
     (case goroutine_at s k of
        Some (InQuery i) \<Rightarrow>
          if terminal err then
            (if closed s then Some (s\<lparr>panicked := True\<rparr>)
             else if length (resCh s) < capacity s then
               Some (become k Returning
                 (s\<lparr>resCh := resCh s @ [\<lparr>Message = resp, Err = err, Host = ''''\<rparr>]\<rparr>))
             else None)
          else Some (become k (InBackoff i) s)
      | _ \<Rightarrow> None)"
| "step' (Wake k TimerFired) s =
     (case goroutine_at s k of
        Some (InBackoff i) \<Rightarrow> Some (become k (LoopHead (i + 1)) s)
      | _ \<Rightarrow> None)"
| "step' (Wake k CtxDone) s =
     (case goroutine_at s k of
        Some (InBackoff i) \<Rightarrow> if ctx_err s \<noteq> None then Some (become k Returning s) else None
      | _ \<Rightarrow> None)"
| "step' (Exit k) s =
     (case goroutine_at s k of
        Some Returning \<Rightarrow> Some (become k Finished (s\<lparr>wg := wg s - 1\<rparr>))
      | _ \<Rightarrow> None)"
| "step' Close s =
     (if wg s = 0 \<and> \<not> closed s then Some (s\<lparr>closed := True\<rparr>) else None)"
| "step' Select_resCh s =
     (if result s \<noteq> None then None
      else
        (case resCh s of
           resp # rest \<Rightarrow> Some (conclude (on_select (Recv resp)) (s\<lparr>resCh := rest\<rparr>))
         | [] \<Rightarrow> if closed s then Some (conclude (on_select RecvClosed) s) else None))"
| "step' Select_Done s =
     (if result s = None \<and> ctx_err s \<noteq> None then Some (conclude (on_select Done) s)
      else None)"
| "step' Deadline s =
     (if ctx_err s = None then Some (s\<lparr>ctx_err := Some DeadlineExceeded\<rparr>) else None)"

text \<open>After a panic the program is gone: no goroutine moves.\<close>

definition step :: "action \<Rightarrow> session \<Rightarrow> session option" where
  "step a s = (if panicked s then None else step' a s)"

text \<open>A schedule runs step by step; a step that cannot be taken is passed over.\<close>

fun run :: "action list \<Rightarrow> session \<Rightarrow> session" where
  "run [] s = s"
| "run (a # as) s = run as (case step a s of None \<Rightarrow> s | Some s' \<Rightarrow> s')"

subsection \<open>Replicas and schedules of the scenarios\<close>

text \<open>
  A replica that fails every time with a temporary error, as a flaky mock host does
  on its first calls; the context is never seen cancelled.
\<close>

definition always_failing :: "nat \<Rightarrow> observation" where
  "always_failing i =
     \<lparr>ctx_cancelled = False,
      reply = ('''', Some (ErrorString ''temporary connection error'')),
      woke = TimerFired\<rparr>"

text \<open>
  A replica that fails once and then answers, as the flaky mock host does (it answers
  at its third call).
\<close>

definition flaky_once :: "nat \<Rightarrow> observation" where
  "flaky_once i =
     (if i = 0 then
        \<lparr>ctx_cancelled = False,
         reply = ('''', Some (ErrorString ''temporary connection error'')),
         woke = TimerFired\<rparr>
      else
        \<lparr>ctx_cancelled = False, reply = (''result from Replica 1 (flaky)'', None),
         woke = TimerFired\<rparr>)"

text \<open>
  A replica that fails once; the worker finds the context cancelled at the head of
  its second iteration.
\<close>

definition cancelled_at_second_check :: "nat \<Rightarrow> observation" where
  "cancelled_at_second_check i =
     \<lparr>ctx_cancelled = (0 < i),
      reply = ('''', Some (ErrorString ''temporary connection error'')),
      woke = TimerFired\<rparr>"

text \<open>The not-found sentinel wrapped by a replica, as \<^verbatim>\<open>fmt.Errorf("replica 2: %w", ErrNotFound)\<close> does.\<close>

definition wrapped_not_found :: error where
  "wrapped_not_found = WrapError ''replica 2: not found'' ErrNotFound"

subsection \<open>Notions the statements use\<close>

text \<open>
  A case of the select after which the loop of the collector goes on: a response that
  carries an error. Every other case makes it return.
\<close>

definition discarded :: "selected \<Rightarrow> bool" where
  "discarded c = (case c of Recv r \<Rightarrow> Err r \<noteq> None | _ \<Rightarrow> False)"

text \<open>The number of workers whose deferred \<^verbatim>\<open>wg.Done()\<close> has not run.\<close>

definition unfinished :: "session \<Rightarrow> nat" where
  "unfinished s = length (filter (\<lambda>g. g \<noteq> Finished) (workers s))"

definition wait_group_inv :: "session \<Rightarrow> bool" where
  "wait_group_inv s =
     (wg s = int (unfinished s) \<and> (closed s \<longrightarrow> unfinished s = 0) \<and> \<not> panicked s)"

definition follows_collector :: "session \<Rightarrow> bool" where
  "follows_collector s = (\<exists>cs. collector cs = (caller_effects s, result s))"

definition verdict_inv :: "session \<Rightarrow> bool" where
  "verdict_inv s =
     (case result s of
        None \<Rightarrow> ctx_err s = None \<or> ctx_err s = Some DeadlineExceeded
      | Some res \<Rightarrow>
          (res = ('''', Some errAllFailed) \<longrightarrow> closed s)
          \<and> (res = ('''', Some errTimedOut) \<longrightarrow> ctx_err s = Some DeadlineExceeded))"


subsection \<open>The scenarios of \<^verbatim>\<open>main\<close>\<close>

text \<open>What a replica that has no data answers, and what a replica that has it answers.\<close>

definition not_found_response :: Response where
  "not_found_response = \<lparr>Message = '''', Err = Some ErrNotFound, Host = ''''\<rparr>"

definition success_response :: Response where
  "success_response = \<lparr>Message = ''result from Replica 2 (ok)'', Err = None, Host = ''''\<rparr>"

text \<open>
  The fourth scenario: one replica does not find the data, the other one answers. Then
  the same call once the second replica has answered, and once both have.
\<close>

definition scenario4 :: session where
  "scenario4 =
     DistributedQuery_init ''SELECT * FROM users WHERE id=123''
       [''Replica 1 (not found)'', ''Replica 2 (ok)'']"

definition scenario4_second_answered :: session where
  "scenario4_second_answered =
     run [Check 1, Reply 1 ''result from Replica 2 (ok)'' None] scenario4"

definition scenario4_both_answered :: session where
  "scenario4_both_answered =
     run [Check 0, Check 1, Reply 0 '''' (Some ErrNotFound),
          Reply 1 ''result from Replica 2 (ok)'' None] scenario4"

text \<open>A call with the single replica that does not find the data, and the run of its worker.\<close>

definition lone_replica :: session where
  "lone_replica =
     DistributedQuery_init ''SELECT * FROM users WHERE id=123'' [''Replica 1 (not found)'']"

definition lone_worker_run :: "action list" where
  "lone_worker_run = [Check 0, Reply 0 '''' (Some ErrNotFound), Exit 0]"


text \<open>A replica that answers with the wrapped sentinel.\<close>

definition wrapping_replica :: "nat \<Rightarrow> observation" where
  "wrapping_replica i =
     \<lparr>ctx_cancelled = False, reply = ('''', Some wrapped_not_found), woke = TimerFired\<rparr>"

subsection \<open>The run of one worker inside a call\<close>

text \<open>
  What the worker \<open>k\<close> does in one step of a schedule, and in a whole schedule. The
  check of the context and the call of the replica are one step (\<open>Check\<close>); the wait of
  the backoff is recorded when its select takes a case (\<open>Wake\<close>).
\<close>

fun worker_effects :: "nat \<Rightarrow> action \<Rightarrow> session \<Rightarrow> weffect list" where
  "worker_effects k (Check k') s =
     (if k' = k then
        (case goroutine_at s k of
           Some (LoopHead i) \<Rightarrow>
             if i < maxAttempts
             then (if ctx_err s = None then [CtxErrCheck False, DoQuery i] else [CtxErrCheck True])
             else []
         | _ \<Rightarrow> [])
      else [])"
| "worker_effects k (Reply k' resp err) s =
     (if k' = k \<and> terminal err \<and> \<not> closed s
      then [Send \<lparr>Message = resp, Err = err, Host = ''''\<rparr>] else [])"
| "worker_effects k (Wake k' w) s = (if k' = k then [Backoff retryInterval w] else [])"
| "worker_effects k (Exit k') s = (if k' = k then [WgDone] else [])"
| "worker_effects k a s = []"

fun trace_of :: "nat \<Rightarrow> action list \<Rightarrow> session \<Rightarrow> weffect list" where
  "trace_of k [] s = []"
| "trace_of k (a # as) s =
     (case step a s of
        None \<Rightarrow> trace_of k as s
      | Some s' \<Rightarrow> worker_effects k a s @ trace_of k as s')"

text \<open>
  What a worker that stands at a given place of its code still does, when it observes
  \<open>env\<close> from there on.
\<close>

fun remaining :: "goroutine \<Rightarrow> (nat \<Rightarrow> observation) \<Rightarrow> weffect list" where
  "remaining (LoopHead i) env = worker_loop i env @ [WgDone]"
| "remaining (InQuery i) env =
     (if terminal (snd (reply (env i))) then
        [Send \<lparr>Message = fst (reply (env i)), Err = snd (reply (env i)), Host = ''''\<rparr>, WgDone]
      else if woke (env i) = TimerFired then
        Backoff retryInterval TimerFired # worker_loop (Suc i) env @ [WgDone]
      else [Backoff retryInterval CtxDone, WgDone])"
| "remaining (InBackoff i) env =
     (if woke (env i) = TimerFired then
        Backoff retryInterval TimerFired # worker_loop (Suc i) env @ [WgDone]
      else [Backoff retryInterval CtxDone, WgDone])"
| "remaining Returning env = [WgDone]"
| "remaining Finished env = []"

text \<open>
  A replica that fails; the select of the worker's backoff takes
  \<^verbatim>\<open>ctx.Done()\<close>.
\<close>

definition cancelled_in_backoff :: "nat \<Rightarrow> observation" where
  "cancelled_in_backoff i =
     \<lparr>ctx_cancelled = False,
      reply = ('''', Some (ErrorString ''temporary connection error'')),
      woke = CtxDone\<rparr>"

text \<open>
  The third scenario with one slow replica. In the first schedule the deadline passes
  while the replica is asked, the replica returns the error of the context, and the
  worker leaves through its backoff and the janitor closes the channel: the closed channel
  and \<^verbatim>\<open>ctx.Done()\<close> are both ready for the select of the caller. In the second
  the replica answers, and the deadline passes before the caller has received the answer.
\<close>

definition scenario3 :: session where
  "scenario3 = DistributedQuery_init ''SELECT * FROM users'' [''Replica 1 (very slow)'']"

definition deadline_then_closed :: "action list" where
  "deadline_then_closed =
     [Check 0, Deadline, Reply 0 '''' (Some DeadlineExceeded), Wake 0 CtxDone, Exit 0, Close]"

definition answer_then_deadline :: "action list" where
  "answer_then_deadline = [Check 0, Reply 0 ''result from Replica 1'' None, Deadline]"

section \<open>The worker\<close>

text \<open>The loop, one iteration unfolded.\<close>

lemma worker_loop_step:
  "worker_loop i env =
     (if i < maxAttempts then
        (if ctx_cancelled (env i) then [CtxErrCheck True]
         else if terminal (snd (reply (env i))) then
           [CtxErrCheck False, DoQuery i,
            Send \<lparr>Message = fst (reply (env i)), Err = snd (reply (env i)), Host = ''''\<rparr>]
         else if woke (env i) = TimerFired then
           [CtxErrCheck False, DoQuery i, Backoff retryInterval TimerFired]
             @ worker_loop (Suc i) env
         else [CtxErrCheck False, DoQuery i, Backoff retryInterval CtxDone])
      else [])"
  by (subst worker_loop.simps) (auto split: prod.splits wake.splits)

lemmas worker_loop_unrolled =
  worker_loop_step [of 0] worker_loop_step [of "Suc 0"]
  worker_loop_step [of "Suc (Suc 0)"] worker_loop_step [of "Suc (Suc (Suc 0))"]

text \<open>
  C3. For every replica, whatever it answers and whatever the worker sees of the
  context, the worker makes at most 3 attempts, and two consecutive attempts are separated
  by one wait of the fixed 500 ms: the attempts and waits of its run are an initial part of
  attempt, wait 500 ms, attempt, wait 500 ms, attempt, wait 500 ms. If the three
  attempts fail with errors that are not the not-found sentinel, the worker sends nothing
  on the channel and terminates (its run ends with the signal to the wait group).
\<close>

theorem worker_at_most_three_attempts:
  "prefix (phases (worker env))
     [Attempt, Delay (500 * Millisecond), Attempt, Delay (500 * Millisecond),
      Attempt, Delay (500 * Millisecond)]
   \<and> ((\<forall>i < maxAttempts. \<not> terminal (snd (reply (env i)))) \<longrightarrow>
        (\<forall>r. Send r \<notin> set (worker env)) \<and> last (worker env) = WgDone)"
proof -
  have p: "prefix (phases (worker env))
     [Attempt, Delay (500 * Millisecond), Attempt, Delay (500 * Millisecond),
      Attempt, Delay (500 * Millisecond)]"
    by (simp add: worker_def worker_loop_unrolled retryInterval_def maxAttempts_def)
  have s: "(\<forall>r. Send r \<notin> set (worker env)) \<and> last (worker env) = WgDone"
    if "\<forall>i < maxAttempts. \<not> terminal (snd (reply (env i)))"
  proof -
    from that have "\<not> terminal (snd (reply (env 0)))"
      "\<not> terminal (snd (reply (env (Suc 0))))"
      "\<not> terminal (snd (reply (env (Suc (Suc 0)))))"
      by (simp_all add: maxAttempts_def)
    then show ?thesis
      by (simp add: worker_def worker_loop_unrolled maxAttempts_def)
  qed
  from p s show ?thesis by blast
qed

theorem worker_at_most_three_attempts_witness:
  "\<not> terminal (snd (reply (always_failing 0)))
   \<and> \<not> terminal (snd (reply (always_failing 1)))
   \<and> \<not> terminal (snd (reply (always_failing 2)))
   \<and> phases (worker always_failing) =
       [Attempt, Delay (500 * Millisecond), Attempt, Delay (500 * Millisecond),
        Attempt, Delay (500 * Millisecond)]
   \<and> (\<forall>r. Send r \<notin> set (worker always_failing))
   \<and> last (worker always_failing) = WgDone"
  using worker_at_most_three_attempts [of always_failing]
  by (simp add: worker_def worker_loop_unrolled always_failing_def maxAttempts_def
        retryInterval_def)

text \<open>
  Where an attempt stands in a run of the loop: the attempt \<open>i\<close> is made in the
  iteration \<open>i\<close>, right after a check of the context that found it live, nothing was
  sent before it, and what follows it is what the iteration \<open>i\<close> does after its call.
\<close>

lemma worker_loop_attempt:
  "worker_loop k env = pre @ DoQuery i # post \<Longrightarrow>
     k \<le> i \<and> i < maxAttempts \<and> \<not> ctx_cancelled (env i) \<and> (\<forall>r. Send r \<notin> set pre)
     \<and> (\<exists>pre'. pre = pre' @ [CtxErrCheck False])
     \<and> worker_loop i env = CtxErrCheck False # DoQuery i # post"
proof (induction k env arbitrary: pre rule: worker_loop.induct)
  case (1 k env)
  show ?case
  proof (cases "k < maxAttempts \<and> \<not> ctx_cancelled (env k) \<and> \<not> terminal (snd (reply (env k)))
                 \<and> woke (env k) = TimerFired")
    case True
    then have u: "worker_loop k env =
        [CtxErrCheck False, DoQuery k, Backoff retryInterval TimerFired] @ worker_loop (Suc k) env"
      by (subst worker_loop_step) simp
    show ?thesis
    proof (cases "i = k \<and> pre = [CtxErrCheck False]")
      case here: True
      with u "1.prems" True show ?thesis by auto
    next
      case False
      with u "1.prems" obtain pre' where
        p: "pre = [CtxErrCheck False, DoQuery k, Backoff retryInterval TimerFired] @ pre'"
        and w: "worker_loop (Suc k) env = pre' @ DoQuery i # post"
        by (auto simp: append_eq_Cons_conv Cons_eq_append_conv)
      from True have "worker_loop (k + 1) env = pre' @ DoQuery i # post \<Longrightarrow>
           k + 1 \<le> i \<and> i < maxAttempts \<and> \<not> ctx_cancelled (env i) \<and> (\<forall>r. Send r \<notin> set pre')
           \<and> (\<exists>pre''. pre' = pre'' @ [CtxErrCheck False])
           \<and> worker_loop i env = CtxErrCheck False # DoQuery i # post"
        by (intro "1.IH" [of "fst (reply (env k))" "snd (reply (env k))"]) auto
      with w p show ?thesis by auto
    qed
  next
    case False
    with "1.prems" show ?thesis
      by (subst (asm) worker_loop_step)
         (auto simp: append_eq_Cons_conv Cons_eq_append_conv worker_loop_step [of i]
               split: if_splits)
  qed
qed

text \<open>
  Where the worker sees the cancellation, the loop ends, and nothing was sent before.
\<close>

lemma worker_loop_cancel:
  "worker_loop k env = pre @ e # post \<Longrightarrow> e = CtxErrCheck True \<or> e = Backoff d CtxDone \<Longrightarrow>
     post = [] \<and> (\<forall>r. Send r \<notin> set pre)"
proof (induction k env arbitrary: pre rule: worker_loop.induct)
  case (1 k env)
  show ?case
  proof (cases "k < maxAttempts \<and> \<not> ctx_cancelled (env k) \<and> \<not> terminal (snd (reply (env k)))
                 \<and> woke (env k) = TimerFired")
    case True
    then have u: "worker_loop k env =
        [CtxErrCheck False, DoQuery k, Backoff retryInterval TimerFired] @ worker_loop (Suc k) env"
      by (subst worker_loop_step) simp
    with "1.prems" obtain pre' where
      p: "pre = [CtxErrCheck False, DoQuery k, Backoff retryInterval TimerFired] @ pre'"
      and w: "worker_loop (Suc k) env = pre' @ e # post"
      by (auto simp: append_eq_Cons_conv Cons_eq_append_conv)
    from True have "worker_loop (k + 1) env = pre' @ e # post \<Longrightarrow>
         e = CtxErrCheck True \<or> e = Backoff d CtxDone \<Longrightarrow>
         post = [] \<and> (\<forall>r. Send r \<notin> set pre')"
      by (intro "1.IH" [of "fst (reply (env k))" "snd (reply (env k))"]) auto
    with w p "1.prems"(2) show ?thesis by auto
  next
    case False
    with "1.prems" show ?thesis
      by (subst (asm) worker_loop_step)
         (auto simp: append_eq_Cons_conv Cons_eq_append_conv split: if_splits)
  qed
qed

text \<open>A send ends the loop, and it is the only one.\<close>

lemma worker_loop_send:
  "worker_loop k env = pre @ Send r # post \<Longrightarrow> post = [] \<and> (\<forall>r'. Send r' \<notin> set pre)"
proof (induction k env arbitrary: pre rule: worker_loop.induct)
  case (1 k env)
  show ?case
  proof (cases "k < maxAttempts \<and> \<not> ctx_cancelled (env k) \<and> \<not> terminal (snd (reply (env k)))
                 \<and> woke (env k) = TimerFired")
    case True
    then have u: "worker_loop k env =
        [CtxErrCheck False, DoQuery k, Backoff retryInterval TimerFired] @ worker_loop (Suc k) env"
      by (subst worker_loop_step) simp
    with "1.prems" obtain pre' where
      p: "pre = [CtxErrCheck False, DoQuery k, Backoff retryInterval TimerFired] @ pre'"
      and w: "worker_loop (Suc k) env = pre' @ Send r # post"
      by (auto simp: append_eq_Cons_conv Cons_eq_append_conv)
    from True have "worker_loop (k + 1) env = pre' @ Send r # post \<Longrightarrow>
         post = [] \<and> (\<forall>r'. Send r' \<notin> set pre')"
      by (intro "1.IH" [of "fst (reply (env k))" "snd (reply (env k))"]) auto
    with w p show ?thesis by auto
  next
    case False
    with "1.prems" show ?thesis
      by (subst (asm) worker_loop_step)
         (auto simp: append_eq_Cons_conv Cons_eq_append_conv split: if_splits)
  qed
qed

text \<open>The signal to the wait group is the last thing a worker does, and only then.\<close>

lemma worker_loop_no_WgDone: "WgDone \<notin> set (worker_loop k env)"
proof (induction k env rule: worker_loop.induct)
  case (1 k env)
  show ?case
  proof (cases "k < maxAttempts \<and> \<not> ctx_cancelled (env k) \<and> \<not> terminal (snd (reply (env k)))
                 \<and> woke (env k) = TimerFired")
    case True
    then have "WgDone \<notin> set (worker_loop (k + 1) env)"
      by (intro "1.IH" [of "fst (reply (env k))" "snd (reply (env k))"]) auto
    with True show ?thesis
      by (subst worker_loop_step) simp
  next
    case False
    then show ?thesis
      by (subst worker_loop_step) auto
  qed
qed

lemma worker_split:
  "worker env = pre @ e # post \<Longrightarrow> e \<noteq> WgDone \<Longrightarrow>
     \<exists>post'. post = post' @ [WgDone] \<and> worker_loop 0 env = pre @ e # post'"
  by (cases post rule: rev_cases) (auto simp: worker_def)

text \<open>
  C4, as the code has it. For every replica worker and every attempt it makes: if
  the call returns a nil error or an error that is the not-found sentinel, the worker
  sends exactly one outcome (the message and the error, nothing sent before) and
  terminates, making no further attempt. For any other error it sends no outcome for that
  attempt and waits the retry delay. The next attempt follows, after the wait and the check
  of the context, when the wait ends by the timer, this was not the third attempt, and the
  context is not cancelled at the check; otherwise the worker terminates without an
  outcome.
\<close>

theorem worker_reply_handling:
  assumes "worker env = pre @ DoQuery i # post"
  shows "(terminal (snd (reply (env i))) \<longrightarrow>
            post = [Send \<lparr>Message = fst (reply (env i)), Err = snd (reply (env i)),
                          Host = ''''\<rparr>, WgDone]
            \<and> (\<forall>r. Send r \<notin> set pre))
       \<and> (\<not> terminal (snd (reply (env i))) \<longrightarrow>
            (if woke (env i) = TimerFired \<and> Suc i < maxAttempts \<and> \<not> ctx_cancelled (env (Suc i))
             then \<exists>post'. post = [Backoff retryInterval TimerFired, CtxErrCheck False,
                                   DoQuery (Suc i)] @ post'
             else post = [Backoff retryInterval CtxDone, WgDone]
                \<or> post = [Backoff retryInterval TimerFired, WgDone]
                \<or> post = [Backoff retryInterval TimerFired, CtxErrCheck True, WgDone]))"
proof -
  from assms obtain post' where post: "post = post' @ [WgDone]"
    and loop: "worker_loop 0 env = pre @ DoQuery i # post'"
    using worker_split by blast
  from worker_loop_attempt [OF loop] have i: "i < maxAttempts" "\<not> ctx_cancelled (env i)"
    and pre: "\<forall>r. Send r \<notin> set pre"
    and at: "worker_loop i env = CtxErrCheck False # DoQuery i # post'"
    by auto
  from at i post pre show ?thesis
    by (subst (asm) worker_loop_step)
       (auto simp: worker_loop_step [of "Suc i"] split: if_splits)
qed

theorem worker_reply_handling_witness:
  "worker flaky_once =
     [CtxErrCheck False] @ DoQuery 0 #
       [Backoff retryInterval TimerFired, CtxErrCheck False, DoQuery 1,
        Send \<lparr>Message = ''result from Replica 1 (flaky)'', Err = None, Host = ''''\<rparr>, WgDone]
   \<and> \<not> terminal (snd (reply (flaky_once 0)))
   \<and> worker flaky_once =
     [CtxErrCheck False, DoQuery 0, Backoff retryInterval TimerFired, CtxErrCheck False]
       @ DoQuery 1 #
       [Send \<lparr>Message = fst (reply (flaky_once 1)), Err = snd (reply (flaky_once 1)),
               Host = ''''\<rparr>, WgDone]
   \<and> terminal (snd (reply (flaky_once 1)))"
  using worker_reply_handling [of flaky_once "[CtxErrCheck False]" 0
      "[Backoff retryInterval TimerFired, CtxErrCheck False, DoQuery 1,
        Send \<lparr>Message = ''result from Replica 1 (flaky)'', Err = None, Host = ''''\<rparr>, WgDone]"]
    worker_reply_handling [of flaky_once
      "[CtxErrCheck False, DoQuery 0, Backoff retryInterval TimerFired, CtxErrCheck False]" 1
      "[Send \<lparr>Message = ''result from Replica 1 (flaky)'', Err = None, Host = ''''\<rparr>, WgDone]"]
  by (simp add: worker_def worker_loop_unrolled flaky_once_def maxAttempts_def)

text \<open>
  The claim C4 as it is written says that the worker retries after any other error. A
  replica that fails three times: its third attempt fails with an error that is not the
  sentinel, and the worker waits and returns with no fourth attempt.
\<close>

theorem third_failure_is_not_retried:
  "\<not> terminal (snd (reply (always_failing 2)))
   \<and> worker always_failing =
       [CtxErrCheck False, DoQuery 0, Backoff retryInterval TimerFired,
        CtxErrCheck False, DoQuery 1, Backoff retryInterval TimerFired,
        CtxErrCheck False] @ DoQuery 2 # [Backoff retryInterval TimerFired, WgDone]
   \<and> (\<forall>j. DoQuery j \<notin> set [Backoff retryInterval TimerFired, WgDone])"
  by (simp add: worker_def worker_loop_unrolled always_failing_def maxAttempts_def)

text \<open>
  C8. In every run of a worker, every attempt comes right after a check of the context
  that found it live, and is made only when the context is not cancelled at that check: a
  worker that finds the context cancelled at its first check does nothing but signal the
  wait group, and one that finds it cancelled at the check after a wait makes no further
  attempt, while one that finds it live makes the attempt. The wait of the backoff
  watches the context: when its select takes
  \<^verbatim>\<open>ctx.Done()\<close> after a failed attempt, the worker does nothing more than
  signal the wait group. Wherever the worker finds the context cancelled, at the check
  or in the select of its backoff, no attempt follows, and the whole run sends no outcome.
\<close>

theorem worker_silent_after_cancellation:
  assumes "worker env = pre @ e # post"
  shows "(e = CtxErrCheck True \<or> e = Backoff d CtxDone \<longrightarrow>
            post = [WgDone] \<and> (\<forall>r. Send r \<notin> set (worker env)))
       \<and> (e = DoQuery i \<longrightarrow>
            (\<exists>pre'. pre = pre' @ [CtxErrCheck False]) \<and> \<not> ctx_cancelled (env i)
            \<and> (\<not> terminal (snd (reply (env i))) \<and> woke (env i) = CtxDone \<longrightarrow>
                 post = [Backoff retryInterval CtxDone, WgDone])
            \<and> (\<not> terminal (snd (reply (env i))) \<and> woke (env i) = TimerFired
                 \<and> Suc i < maxAttempts \<and> ctx_cancelled (env (Suc i)) \<longrightarrow>
                 post = [Backoff retryInterval TimerFired, CtxErrCheck True, WgDone])
            \<and> (\<not> terminal (snd (reply (env i))) \<and> woke (env i) = TimerFired
                 \<and> Suc i < maxAttempts \<and> \<not> ctx_cancelled (env (Suc i)) \<longrightarrow>
                 (\<exists>post'. post = [Backoff retryInterval TimerFired, CtxErrCheck False,
                                   DoQuery (Suc i)] @ post')))
       \<and> (ctx_cancelled (env 0) \<longrightarrow> worker env = [CtxErrCheck True, WgDone])
       \<and> (\<not> ctx_cancelled (env 0) \<longrightarrow>
            (\<exists>post'. worker env = CtxErrCheck False # DoQuery 0 # post'))"
proof -
  have a: "post = [WgDone] \<and> (\<forall>r. Send r \<notin> set (worker env))"
    if c: "e = CtxErrCheck True \<or> e = Backoff d CtxDone"
  proof -
    from c have "e \<noteq> WgDone" by auto
    with assms obtain post' where post: "post = post' @ [WgDone]"
      and loop: "worker_loop 0 env = pre @ e # post'"
      using worker_split by blast
    from worker_loop_cancel [OF loop c] post assms c show ?thesis by auto
  qed
  have b: "(\<exists>pre'. pre = pre' @ [CtxErrCheck False]) \<and> \<not> ctx_cancelled (env i)
            \<and> (\<not> terminal (snd (reply (env i))) \<and> woke (env i) = CtxDone \<longrightarrow>
                 post = [Backoff retryInterval CtxDone, WgDone])
            \<and> (\<not> terminal (snd (reply (env i))) \<and> woke (env i) = TimerFired
                 \<and> Suc i < maxAttempts \<and> ctx_cancelled (env (Suc i)) \<longrightarrow>
                 post = [Backoff retryInterval TimerFired, CtxErrCheck True, WgDone])
            \<and> (\<not> terminal (snd (reply (env i))) \<and> woke (env i) = TimerFired
                 \<and> Suc i < maxAttempts \<and> \<not> ctx_cancelled (env (Suc i)) \<longrightarrow>
                 (\<exists>post'. post = [Backoff retryInterval TimerFired, CtxErrCheck False,
                                   DoQuery (Suc i)] @ post'))"
    if q: "e = DoQuery i"
  proof -
    from assms q obtain post' where post: "post = post' @ [WgDone]"
      and loop: "worker_loop 0 env = pre @ DoQuery i # post'"
      using worker_split by blast
    from worker_loop_attempt [OF loop] have i: "i < maxAttempts" "\<not> ctx_cancelled (env i)"
      and pre: "\<exists>pre'. pre = pre' @ [CtxErrCheck False]"
      and at: "worker_loop i env = CtxErrCheck False # DoQuery i # post'"
      by auto
    from at i post have "(\<not> terminal (snd (reply (env i))) \<and> woke (env i) = CtxDone \<longrightarrow>
                 post = [Backoff retryInterval CtxDone, WgDone])
            \<and> (\<not> terminal (snd (reply (env i))) \<and> woke (env i) = TimerFired
                 \<and> Suc i < maxAttempts \<and> ctx_cancelled (env (Suc i)) \<longrightarrow>
                 post = [Backoff retryInterval TimerFired, CtxErrCheck True, WgDone])
            \<and> (\<not> terminal (snd (reply (env i))) \<and> woke (env i) = TimerFired
                 \<and> Suc i < maxAttempts \<and> \<not> ctx_cancelled (env (Suc i)) \<longrightarrow>
                 (\<exists>post'. post = [Backoff retryInterval TimerFired, CtxErrCheck False,
                                   DoQuery (Suc i)] @ post'))"
      by (subst (asm) worker_loop_step)
         (auto simp: worker_loop_step [of "Suc i"] split: if_splits)
    with pre i show ?thesis by blast
  qed
  have c: "worker env = [CtxErrCheck True, WgDone]" if "ctx_cancelled (env 0)"
    using that by (simp add: worker_def worker_loop_step [of 0] maxAttempts_def)
  have l: "\<exists>post'. worker env = CtxErrCheck False # DoQuery 0 # post'"
    if "\<not> ctx_cancelled (env 0)"
    using that by (simp add: worker_def worker_loop_step [of 0] maxAttempts_def)
  from a b c l show ?thesis by blast
qed

theorem worker_silent_after_cancellation_witness:
  "worker cancelled_at_second_check =
     [CtxErrCheck False, DoQuery 0, Backoff retryInterval TimerFired]
       @ CtxErrCheck True # [WgDone]
   \<and> (\<forall>r. Send r \<notin> set (worker cancelled_at_second_check))
   \<and> \<not> terminal (snd (reply (cancelled_at_second_check 0)))
   \<and> woke (cancelled_at_second_check 0) = TimerFired
   \<and> ctx_cancelled (cancelled_at_second_check (Suc 0))
   \<and> \<not> terminal (snd (reply (cancelled_in_backoff 0))) \<and> woke (cancelled_in_backoff 0) = CtxDone
   \<and> \<not> ctx_cancelled (cancelled_in_backoff 0)
   \<and> worker cancelled_in_backoff =
       [CtxErrCheck False] @ DoQuery 0 # [Backoff retryInterval CtxDone, WgDone]
   \<and> worker cancelled_in_backoff =
       [CtxErrCheck False, DoQuery 0] @ Backoff retryInterval CtxDone # [WgDone]
   \<and> (\<forall>r. Send r \<notin> set (worker cancelled_in_backoff))"
proof -
  have t1: "worker cancelled_at_second_check =
     [CtxErrCheck False, DoQuery 0, Backoff retryInterval TimerFired]
       @ CtxErrCheck True # [WgDone]"
    by (simp add: worker_def worker_loop_unrolled cancelled_at_second_check_def maxAttempts_def)
  have t2: "worker cancelled_in_backoff =
       [CtxErrCheck False] @ DoQuery 0 # [Backoff retryInterval CtxDone, WgDone]"
    by (simp add: worker_def worker_loop_unrolled cancelled_in_backoff_def maxAttempts_def)
  have t3: "worker cancelled_in_backoff =
       [CtxErrCheck False, DoQuery 0] @ Backoff retryInterval CtxDone # [WgDone]"
    by (simp add: worker_def worker_loop_unrolled cancelled_in_backoff_def maxAttempts_def)
  have o: "\<not> terminal (snd (reply (cancelled_at_second_check 0)))
      \<and> woke (cancelled_at_second_check 0) = TimerFired
      \<and> ctx_cancelled (cancelled_at_second_check (Suc 0))
      \<and> \<not> terminal (snd (reply (cancelled_in_backoff 0)))
      \<and> woke (cancelled_in_backoff 0) = CtxDone"
    by (simp add: cancelled_in_backoff_def cancelled_at_second_check_def)
  from worker_silent_after_cancellation [OF t1, of 0 0]
  have s1: "\<forall>r. Send r \<notin> set (worker cancelled_at_second_check)" by blast
  from worker_silent_after_cancellation [OF t3, of retryInterval 0]
  have s2: "\<forall>r. Send r \<notin> set (worker cancelled_in_backoff)" by blast
  from worker_silent_after_cancellation [OF t2, of 0 0]
  have s3: "\<not> ctx_cancelled (cancelled_in_backoff 0)" by blast
  from t1 t2 t3 o s1 s2 s3 show ?thesis by blast
qed

section \<open>The collector\<close>

text \<open>
  An iteration that takes a response with an error goes on to the next one; any other
  iteration returns. So the loop returns at the first case that is not such a response,
  with what that iteration returns.
\<close>

lemma on_select_discarded:
  "discarded c \<Longrightarrow> snd (on_select c) = None \<and> Cancel \<notin> set (fst (on_select c))"
  by (cases c) (auto simp: discarded_def split: if_splits)

lemma on_select_returns:
  "\<not> discarded c \<Longrightarrow> snd (on_select c) \<noteq> None"
  by (cases c) (auto simp: discarded_def split: option.splits)

lemma collector_Cons_discarded:
  "discarded c \<Longrightarrow>
     collector (c # cs) = (fst (on_select c) @ fst (collector cs), snd (collector cs))"
  using on_select_discarded [of c]
  by (cases "on_select c"; cases "collector cs") auto

lemma collector_Cons_returns:
  "\<not> discarded c \<Longrightarrow> collector (c # cs) = (fst (on_select c), snd (on_select c))"
  using on_select_returns [of c]
  by (cases "on_select c") auto

lemma collector_skip:
  "\<forall>c \<in> set pre. discarded c \<Longrightarrow>
     collector (pre @ rest) = (fst (collector pre) @ fst (collector rest), snd (collector rest))
     \<and> snd (collector pre) = None \<and> Cancel \<notin> set (fst (collector pre))"
proof (induction pre)
  case Nil
  then show ?case by simp
next
  case (Cons c pre)
  then have d: "discarded c" and IH: "collector (pre @ rest) =
      (fst (collector pre) @ fst (collector rest), snd (collector rest))"
     "snd (collector pre) = None" "Cancel \<notin> set (fst (collector pre))"
    by auto
  from d IH on_select_discarded [OF d] show ?case
    by (simp add: collector_Cons_discarded del: collector.simps)
qed

lemma collector_first_return:
  "snd (collector cs) = Some res \<Longrightarrow>
     \<exists>pre c rest. cs = pre @ c # rest \<and> (\<forall>c \<in> set pre. discarded c) \<and> \<not> discarded c
        \<and> snd (on_select c) = Some res"
proof (induction cs)
  case Nil
  then show ?case by simp
next
  case (Cons c cs)
  show ?case
  proof (cases "discarded c")
    case True
    with Cons.prems have "snd (collector cs) = Some res"
      by (simp add: collector_Cons_discarded del: collector.simps)
    from Cons.IH [OF this] obtain pre c' rest where
      "cs = pre @ c' # rest" "\<forall>c \<in> set pre. discarded c" "\<not> discarded c'"
      "snd (on_select c') = Some res"
      by blast
    with True have "c # cs = (c # pre) @ c' # rest \<and> (\<forall>c \<in> set (c # pre). discarded c)
        \<and> \<not> discarded c' \<and> snd (on_select c') = Some res"
      by simp
    then show ?thesis by blast
  next
    case False
    with Cons.prems have "snd (on_select c) = Some res"
      by (simp add: collector_Cons_returns del: collector.simps)
    with False have "c # cs = [] @ c # cs \<and> (\<forall>c \<in> set []. discarded c) \<and> \<not> discarded c
        \<and> snd (on_select c) = Some res"
      by simp
    then show ?thesis by blast
  qed
qed

lemma collector_at_first_return:
  "\<forall>c \<in> set pre. discarded c \<Longrightarrow> \<not> discarded c \<Longrightarrow>
     snd (collector (pre @ c # rest)) = snd (on_select c)
     \<and> fst (collector (pre @ c # rest)) = fst (collector pre) @ fst (on_select c)"
  using collector_skip [of pre "c # rest"]
  by (simp add: collector_Cons_returns del: collector.simps)


lemma collector_snoc:
  "snd (collector cs) = None \<Longrightarrow>
     collector (cs @ [c]) = (fst (collector cs) @ fst (on_select c), snd (on_select c))"
proof (induction cs)
  case Nil
  then show ?case by (cases "on_select c"; cases "snd (on_select c)") auto
next
  case (Cons d cs)
  show ?case
  proof (cases "discarded d")
    case True
    with Cons show ?thesis
      by (simp add: collector_Cons_discarded del: collector.simps)
  next
    case False
    with Cons.prems on_select_returns [OF False] show ?thesis
      by (simp add: collector_Cons_returns del: collector.simps)
  qed
qed

lemma on_select_kinds:
  "snd (on_select c) = Some res \<Longrightarrow>
     (\<exists>resp. c = Recv resp \<and> Err resp = None \<and> res = (Message resp, None))
     \<or> (c = RecvClosed \<and> res = ('''', Some errAllFailed))
     \<or> (c = Done \<and> res = ('''', Some errTimedOut))"
  by (cases c) (auto split: option.splits if_splits)


section \<open>The goroutines together\<close>

text \<open>A property that every step keeps holds after every schedule.\<close>

lemma run_invariant:
  assumes "\<And>a s s'. I s \<Longrightarrow> step a s = Some s' \<Longrightarrow> I s'" and "I s"
  shows "I (run sched s)"
  using assms(2)
proof (induction sched arbitrary: s)
  case Nil
  then show ?case by simp
next
  case (Cons a sched)
  then show ?case
    by (cases "step a s") (auto intro: assms(1))
qed


text \<open>The fields that a step leaves alone.\<close>

lemma become_fields [simp]:
  "wg (become k g s) = wg s" "closed (become k g s) = closed s"
  "panicked (become k g s) = panicked s" "result (become k g s) = result s"
  "resCh (become k g s) = resCh s" "ctx_err (become k g s) = ctx_err s"
  "capacity (become k g s) = capacity s" "timeout (become k g s) = timeout s"
  "caller_effects (become k g s) = caller_effects s"
  "workers (become k g s) = (workers s)[k := g]"
  by (simp_all add: become_def)

lemma conclude_fields [simp]:
  "wg (conclude out s) = wg s" "closed (conclude out s) = closed s"
  "panicked (conclude out s) = panicked s" "result (conclude out s) = snd out"
  "resCh (conclude out s) = resCh s" "workers (conclude out s) = workers s"
  "capacity (conclude out s) = capacity s" "timeout (conclude out s) = timeout s"
  "caller_effects (conclude out s) = caller_effects s @ fst out"
  "ctx_err (conclude out s) =
     (if ctx_err s = None \<and> (Cancel \<in> set (fst out) \<or> snd out \<noteq> None)
      then Some Canceled else ctx_err s)"
  by (simp_all add: conclude_def)

lemma unfinished_simps [simp]:
  "unfinished (conclude out s) = unfinished s"
  "unfinished (s\<lparr>resCh := c\<rparr>) = unfinished s"
  "unfinished (s\<lparr>closed := b\<rparr>) = unfinished s"
  "unfinished (s\<lparr>ctx_err := e\<rparr>) = unfinished s"
  "unfinished (s\<lparr>wg := n\<rparr>) = unfinished s"
  by (simp_all add: unfinished_def)

lemma goroutine_at_simps [simp]:
  "goroutine_at (s\<lparr>resCh := c\<rparr>) k = goroutine_at s k"
  "goroutine_at (s\<lparr>wg := n\<rparr>) k = goroutine_at s k"
  by (simp_all add: goroutine_at_def)


lemma step_Select_resCh_Cons:
  "result s = None \<Longrightarrow> \<not> panicked s \<Longrightarrow> resCh s = resp # rs \<Longrightarrow>
     step Select_resCh s = Some (conclude (on_select (Recv resp)) (s\<lparr>resCh := rs\<rparr>))"
  by (simp add: step_def)


text \<open>
  The counter of the wait group is the number of workers that have not run their
  deferred \<^verbatim>\<open>wg.Done()\<close>; the channel is closed only when it is zero, so no
  worker sends on the closed channel.
\<close>

lemma length_filter_update:
  "k < length xs \<Longrightarrow>
     length (filter P (xs[k := y])) + (if P (xs ! k) then 1 else 0)
       = length (filter P xs) + (if P y then 1 else 0)"
proof (induction xs arbitrary: k)
  case Nil
  then show ?case by simp
next
  case (Cons x xs)
  then show ?case by (cases k) auto
qed

lemma unfinished_become:
  "goroutine_at s k = Some g \<Longrightarrow> g \<noteq> Finished \<Longrightarrow> g' \<noteq> Finished \<Longrightarrow>
     unfinished (become k g' s) = unfinished s"
  using length_filter_update [of k "workers s" "\<lambda>g. g \<noteq> Finished" g']
  by (auto simp: unfinished_def become_def goroutine_at_def split: if_splits)

lemma unfinished_become_Finished:
  "goroutine_at s k = Some g \<Longrightarrow> g \<noteq> Finished \<Longrightarrow>
     Suc (unfinished (become k Finished s)) = unfinished s"
  using length_filter_update [of k "workers s" "\<lambda>g. g \<noteq> Finished" Finished]
  by (auto simp: unfinished_def become_def goroutine_at_def split: if_splits)

lemma unfinished_zero:
  "unfinished s = 0 \<Longrightarrow> goroutine_at s k = Some g \<Longrightarrow> g = Finished"
  by (auto simp: unfinished_def goroutine_at_def filter_empty_conv split: if_splits)

lemma unfinished_become_wg [simp]:
  "unfinished (become k g (s\<lparr>wg := n\<rparr>)) = unfinished (become k g s)"
  by (simp add: unfinished_def become_def)

lemma wait_group_inv_step:
  assumes "wait_group_inv s" and "step a s = Some s'"
  shows "wait_group_inv s'"
proof (cases "(a, s)" rule: step'.cases)
  case (5 k s0)
  with assms show ?thesis
    using unfinished_become_Finished [of s k Returning]
    by (auto simp: step_def wait_group_inv_def
             split: option.splits goroutine.splits if_splits)
next
  case (7 s0)
  with assms show ?thesis
    by (auto simp: step_def wait_group_inv_def split: if_splits list.splits)
qed (use assms in \<open>auto simp: step_def wait_group_inv_def unfinished_become
             dest: unfinished_zero
             split: option.splits goroutine.splits if_splits\<close>)

lemma wait_group_inv_init: "wait_group_inv (DistributedQuery_init q replicas)"
  by (simp add: wait_group_inv_def DistributedQuery_init_def unfinished_def)


lemma wait_group_inv_run: "wait_group_inv (run sched (DistributedQuery_init q replicas))"
  by (rule run_invariant [where I = wait_group_inv])
     (auto intro: wait_group_inv_step wait_group_inv_init)


text \<open>A cancelled context stays cancelled, a result stays, the timeout never changes.\<close>

lemma ctx_err_step:
  "ctx_err s \<noteq> None \<Longrightarrow> step a s = Some s' \<Longrightarrow> ctx_err s' \<noteq> None"
  by (cases "(a, s)" rule: step'.cases)
     (auto simp: step_def split: option.splits goroutine.splits if_splits list.splits)

lemma ctx_err_stays: "ctx_err s \<noteq> None \<Longrightarrow> ctx_err (run sched s) \<noteq> None"
proof (induction sched arbitrary: s)
  case Nil
  then show ?case by simp
next
  case (Cons a sched)
  show ?case
  proof (cases "step a s")
    case None
    with Cons show ?thesis by simp
  next
    case (Some s')
    with Cons.prems have "ctx_err s' \<noteq> None" by (rule ctx_err_step)
    with Cons.IH Some show ?thesis by simp
  qed
qed

lemma result_step:
  "result s = Some r \<Longrightarrow> step a s = Some s' \<Longrightarrow> result s' = Some r"
  by (cases "(a, s)" rule: step'.cases)
     (auto simp: step_def split: option.splits goroutine.splits if_splits list.splits)

lemma result_stays: "result s = Some r \<Longrightarrow> result (run sched s) = Some r"
proof (induction sched arbitrary: s)
  case Nil
  then show ?case by simp
next
  case (Cons a sched)
  show ?case
  proof (cases "step a s")
    case None
    with Cons show ?thesis by simp
  next
    case (Some s')
    with Cons.prems have "result s' = Some r" by (rule result_step)
    with Cons.IH Some show ?thesis by simp
  qed
qed

lemma timeout_step: "step a s = Some s' \<Longrightarrow> timeout s' = timeout s"
  by (cases "(a, s)" rule: step'.cases)
     (auto simp: step_def split: option.splits goroutine.splits if_splits list.splits)

lemma timeout_run: "timeout (run sched s) = timeout s"
proof (induction sched arbitrary: s)
  case Nil
  then show ?case by simp
next
  case (Cons a sched)
  then show ?case
    by (cases "step a s") (simp_all add: timeout_step)
qed


text \<open>
  What the caller has done and returned is what the loop of the collector does on the
  cases its select has taken.
\<close>

lemma follows_collector_conclude:
  assumes "follows_collector s" "result s = None"
  shows "follows_collector (conclude (on_select c) s)"
proof -
  from assms obtain cs where cs: "collector cs = (caller_effects s, None)"
    by (auto simp: follows_collector_def)
  then have "collector (cs @ [c]) = (caller_effects s @ fst (on_select c), snd (on_select c))"
    using collector_snoc [of cs c] by simp
  then show ?thesis
    unfolding follows_collector_def by (intro exI [of _ "cs @ [c]"]) simp
qed

lemma follows_collector_simps [simp]:
  "follows_collector (become k g s) = follows_collector s"
  "follows_collector (s\<lparr>resCh := c\<rparr>) = follows_collector s"
  "follows_collector (s\<lparr>closed := b\<rparr>) = follows_collector s"
  "follows_collector (s\<lparr>ctx_err := e\<rparr>) = follows_collector s"
  "follows_collector (s\<lparr>wg := n\<rparr>) = follows_collector s"
  "follows_collector (s\<lparr>panicked := p\<rparr>) = follows_collector s"
  by (simp_all add: follows_collector_def become_def)

lemma follows_collector_step:
  assumes "follows_collector s" and "step a s = Some s'"
  shows "follows_collector s'"
proof (cases "(a, s)" rule: step'.cases)
  case (7 s0)
  with assms(2) have "result s = None"
    by (cases "result s") (auto simp: step_def split: if_splits)
  with 7 assms show ?thesis
    by (auto simp: step_def simp del: on_select.simps intro!: follows_collector_conclude
             split: if_splits list.splits)
next
  case (8 s0)
  with assms(2) have "result s = None"
    by (cases "result s") (auto simp: step_def split: if_splits)
  with 8 assms show ?thesis
    by (auto simp: step_def simp del: on_select.simps intro!: follows_collector_conclude
             split: if_splits)
qed (use assms in \<open>auto simp: step_def split: option.splits goroutine.splits if_splits\<close>)

lemma follows_collector_init: "follows_collector (DistributedQuery_init q replicas)"
  unfolding follows_collector_def
  by (intro exI [of _ "[]"]) (simp add: DistributedQuery_init_def)

text \<open>
  Where a failure comes from: the channel was closed, or the deadline had passed. Until
  the caller returns, only the deadline cancels the context.
\<close>

lemma verdict_inv_step:
  assumes "verdict_inv s" and "step a s = Some s'"
  shows "verdict_inv s'"
  using assms
  by (cases "(a, s)" rule: step'.cases)
     (auto simp: step_def verdict_inv_def errAllFailed_def errTimedOut_def
        split: option.splits goroutine.splits if_splits list.splits)

lemma verdict_inv_init: "verdict_inv (DistributedQuery_init q replicas)"
  by (simp add: verdict_inv_def DistributedQuery_init_def)

lemma verdict_inv_run: "verdict_inv (run sched (DistributedQuery_init q replicas))"
  by (rule run_invariant [where I = verdict_inv])
     (auto intro: verdict_inv_step verdict_inv_init)




text \<open>
  Once the channel is closed, the receive of the caller is never blocked: after at most
  one receive for each buffered response and one more, the caller has returned.
\<close>

lemma drain:
  "closed s \<Longrightarrow> \<not> panicked s \<Longrightarrow>
     result (run (replicate (Suc (length (resCh s))) Select_resCh) s) \<noteq> None"
proof (induction "resCh s" arbitrary: s)
  case Nil
  then show ?case
    by (cases "result s") (auto simp: step_def)
next
  case (Cons resp rest)
  show ?case
  proof (cases "result s")
    case None
    let ?s' = "conclude (on_select (Recv resp)) (s\<lparr>resCh := rest\<rparr>)"
    from None Cons.prems Cons.hyps(2) [symmetric]
    have st: "step Select_resCh s = Some ?s'"
      by (simp add: step_def)
    have "result (run (replicate (Suc (length (resCh ?s'))) Select_resCh) ?s') \<noteq> None"
      using Cons.prems by (intro Cons.hyps(1)) simp_all
    with st Cons.hyps(2) [symmetric] show ?thesis by simp
  next
    case (Some r)
    then have "result (run (replicate (Suc (length (resCh s))) Select_resCh) s) = Some r"
      by (rule result_stays)
    then show ?thesis by (simp del: run.simps replicate.simps)
  qed
qed

section \<open>The worker inside a call\<close>

text \<open>
  The loop from the iteration \<open>i\<close> on looks only at what is observed from \<open>i\<close>
  on. So each step of a worker in a call is a step of the loop under some observations,
  and under every schedule what a worker has done so far is an initial part of a run of
  the loop, and all of one once the worker has finished: what holds of every run of the
  loop holds of every worker of every call.
\<close>

lemma worker_loop_cong:
  "(\<And>j. i \<le> j \<Longrightarrow> env j = env' j) \<Longrightarrow> worker_loop i env = worker_loop i env'"
proof (induction i env rule: worker_loop.induct)
  case (1 i env)
  have same: "env i = env' i" by (simp add: "1.prems")
  show ?case
  proof (cases "i < maxAttempts \<and> \<not> ctx_cancelled (env i) \<and> \<not> terminal (snd (reply (env i)))
                 \<and> woke (env i) = TimerFired")
    case True
    then have "worker_loop (i + 1) env = worker_loop (i + 1) env'"
      by (intro "1.IH" [of "fst (reply (env i))" "snd (reply (env i))"]) (auto simp: "1.prems")
    with True same show ?thesis
      by (subst worker_loop_step, subst (2) worker_loop_step) simp
  next
    case False
    with same show ?thesis
      by (subst worker_loop_step, subst (2) worker_loop_step) auto
  qed
qed

lemma remaining_LoopHead_live:
  assumes "i < maxAttempts"
  shows "remaining (LoopHead i) (env(i := (env i)\<lparr>ctx_cancelled := False\<rparr>))
       = [CtxErrCheck False, DoQuery i] @ remaining (InQuery i) env"
proof -
  let ?env = "env(i := (env i)\<lparr>ctx_cancelled := False\<rparr>)"
  have "worker_loop (Suc i) ?env = worker_loop (Suc i) env"
    by (rule worker_loop_cong) simp
  with assms show ?thesis
    by (simp add: worker_loop_step [of i])
qed

lemma remaining_LoopHead_cancelled:
  "i < maxAttempts \<Longrightarrow>
     remaining (LoopHead i) (env(i := (env i)\<lparr>ctx_cancelled := True\<rparr>))
       = [CtxErrCheck True] @ remaining Returning env'"
  by (simp add: worker_loop_step [of i])

lemma remaining_LoopHead_end:
  "\<not> i < maxAttempts \<Longrightarrow> remaining (LoopHead i) env = remaining Returning env'"
  by (simp add: worker_loop_step [of i])

lemma remaining_InQuery_terminal:
  "terminal err \<Longrightarrow>
     remaining (InQuery i) (env(i := (env i)\<lparr>reply := (resp, err)\<rparr>))
       = [Send \<lparr>Message = resp, Err = err, Host = ''''\<rparr>] @ remaining Returning env'"
  by simp

lemma remaining_InQuery_retry:
  "\<not> terminal err \<Longrightarrow>
     remaining (InQuery i) (env(i := (env i)\<lparr>reply := (resp, err)\<rparr>))
       = remaining (InBackoff i) env"
proof -
  let ?env = "env(i := (env i)\<lparr>reply := (resp, err)\<rparr>)"
  assume "\<not> terminal err"
  moreover have "worker_loop (Suc i) ?env = worker_loop (Suc i) env"
    by (rule worker_loop_cong) simp
  ultimately show ?thesis by simp
qed

lemma remaining_InBackoff_timer:
  "remaining (InBackoff i) (env(i := (env i)\<lparr>woke := TimerFired\<rparr>))
     = [Backoff retryInterval TimerFired] @ remaining (LoopHead (i + 1)) env"
proof -
  let ?env = "env(i := (env i)\<lparr>woke := TimerFired\<rparr>)"
  have "worker_loop (Suc i) ?env = worker_loop (Suc i) env"
    by (rule worker_loop_cong) simp
  then show ?thesis by simp
qed

lemma remaining_InBackoff_done:
  "remaining (InBackoff i) (env(i := (env i)\<lparr>woke := CtxDone\<rparr>))
     = [Backoff retryInterval CtxDone] @ remaining Returning env'"
  by simp

lemma goroutine_at_become:
  "goroutine_at (become k' g s) k =
     (if k = k' \<and> k < length (workers s) then Some g else goroutine_at s k)"
  by (auto simp: goroutine_at_def become_def)

lemma goroutine_at_other [simp]:
  "goroutine_at (s\<lparr>closed := b\<rparr>) k = goroutine_at s k"
  "goroutine_at (s\<lparr>ctx_err := e\<rparr>) k = goroutine_at s k"
  "goroutine_at (s\<lparr>panicked := p\<rparr>) k = goroutine_at s k"
  "goroutine_at (conclude out s) k = goroutine_at s k"
  by (simp_all add: goroutine_at_def)

lemma worker_step:
  assumes "step a s = Some s'" and "goroutine_at s k = Some g"
  shows "\<exists>g'. goroutine_at s' k = Some g'
           \<and> (\<forall>env'. \<exists>env. remaining g env = worker_effects k a s @ remaining g' env')"
proof (cases "(a, s)" rule: step'.cases)
  case (1 k' s0)
  show ?thesis
  proof (cases "k' = k")
    case True
    with 1 assms obtain i where g: "g = LoopHead i"
      by (auto simp: step_def split: if_splits option.splits goroutine.splits)
    show ?thesis
    proof (cases "i < maxAttempts")
      case live: True
      show ?thesis
      proof (cases "ctx_err s")
        case None
        with 1 True g assms live have "goroutine_at s' k = Some (InQuery i)"
          "worker_effects k a s = [CtxErrCheck False, DoQuery i]"
          by (auto simp: step_def goroutine_at_become goroutine_at_def split: if_splits)
        with g live remaining_LoopHead_live show ?thesis by metis
      next
        case (Some e)
        with 1 True g assms live have "goroutine_at s' k = Some Returning"
          "worker_effects k a s = [CtxErrCheck True]"
          by (auto simp: step_def goroutine_at_become goroutine_at_def split: if_splits)
        with g live remaining_LoopHead_cancelled show ?thesis by metis
      qed
    next
      case False
      with 1 True g assms have "goroutine_at s' k = Some Returning"
        "worker_effects k a s = []"
        by (auto simp: step_def goroutine_at_become goroutine_at_def split: if_splits)
      with g False remaining_LoopHead_end show ?thesis by (metis append_Nil)
    qed
  next
    case False
    with 1 assms have "goroutine_at s' k = Some g" "worker_effects k a s = []"
      by (auto simp: step_def goroutine_at_become
               split: if_splits option.splits goroutine.splits)
    then show ?thesis by auto
  qed
next
  case (2 k' resp err s0)
  show ?thesis
  proof (cases "k' = k")
    case True
    with 2 assms obtain i where g: "g = InQuery i"
      by (auto simp: step_def split: if_splits option.splits goroutine.splits)
    show ?thesis
    proof (cases "terminal err")
      case t: True
      show ?thesis
      proof (cases "closed s")
        case True
        with 2 \<open>k' = k\<close> g assms t have "goroutine_at s' k = Some (InQuery i)"
          "worker_effects k a s = []"
          by (auto simp: step_def split: if_splits)
        with g show ?thesis by auto
      next
        case False
        with 2 \<open>k' = k\<close> g assms t have "goroutine_at s' k = Some Returning"
          "worker_effects k a s = [Send \<lparr>Message = resp, Err = err, Host = ''''\<rparr>]"
          by (auto simp: step_def goroutine_at_become goroutine_at_def split: if_splits)
        with g t remaining_InQuery_terminal show ?thesis by metis
      qed
    next
      case False
      with 2 True g assms have "goroutine_at s' k = Some (InBackoff i)"
        "worker_effects k a s = []"
        by (auto simp: step_def goroutine_at_become goroutine_at_def split: if_splits)
      with g False remaining_InQuery_retry show ?thesis by (metis append_Nil)
    qed
  next
    case False
    with 2 assms have "goroutine_at s' k = Some g" "worker_effects k a s = []"
      by (auto simp: step_def goroutine_at_become goroutine_at_def
               split: if_splits option.splits goroutine.splits)
    then show ?thesis by auto
  qed
next
  case (3 k' s0)
  show ?thesis
  proof (cases "k' = k")
    case True
    with 3 assms obtain i where g: "g = InBackoff i"
      by (auto simp: step_def split: if_splits option.splits goroutine.splits)
    with 3 True assms have "goroutine_at s' k = Some (LoopHead (i + 1))"
      "worker_effects k a s = [Backoff retryInterval TimerFired]"
      by (auto simp: step_def goroutine_at_become goroutine_at_def split: if_splits)
    with g remaining_InBackoff_timer show ?thesis by metis
  next
    case False
    with 3 assms have "goroutine_at s' k = Some g" "worker_effects k a s = []"
      by (auto simp: step_def goroutine_at_become
               split: if_splits option.splits goroutine.splits)
    then show ?thesis by auto
  qed
next
  case (4 k' s0)
  show ?thesis
  proof (cases "k' = k")
    case True
    with 4 assms obtain i where g: "g = InBackoff i"
      by (auto simp: step_def split: if_splits option.splits goroutine.splits)
    with 4 True assms have "goroutine_at s' k = Some Returning"
      "worker_effects k a s = [Backoff retryInterval CtxDone]"
      by (auto simp: step_def goroutine_at_become goroutine_at_def split: if_splits)
    with g remaining_InBackoff_done show ?thesis by metis
  next
    case False
    with 4 assms have "goroutine_at s' k = Some g" "worker_effects k a s = []"
      by (auto simp: step_def goroutine_at_become
               split: if_splits option.splits goroutine.splits)
    then show ?thesis by auto
  qed
next
  case (5 k' s0)
  show ?thesis
  proof (cases "k' = k")
    case True
    with 5 assms have "g = Returning" "goroutine_at s' k = Some Finished"
      "worker_effects k a s = [WgDone]"
      by (auto simp: step_def goroutine_at_become goroutine_at_def
               split: if_splits option.splits goroutine.splits)
    then show ?thesis by auto
  next
    case False
    with 5 assms have "goroutine_at s' k = Some g" "worker_effects k a s = []"
      by (auto simp: step_def goroutine_at_become goroutine_at_def
               split: if_splits option.splits goroutine.splits)
    then show ?thesis by auto
  qed
next
  case (6 s0)
  with assms have "goroutine_at s' k = Some g" "worker_effects k a s = []"
    by (auto simp: step_def split: if_splits)
  then show ?thesis by auto
next
  case (7 s0)
  with assms have "goroutine_at s' k = Some g" "worker_effects k a s = []"
    by (auto simp: step_def simp del: on_select.simps split: if_splits list.splits)
  then show ?thesis by auto
next
  case (8 s0)
  with assms have "goroutine_at s' k = Some g" "worker_effects k a s = []"
    by (auto simp: step_def simp del: on_select.simps split: if_splits)
  then show ?thesis by auto
next
  case (9 s0)
  with assms have "goroutine_at s' k = Some g" "worker_effects k a s = []"
    by (auto simp: step_def split: if_splits)
  then show ?thesis by auto
qed

lemma trace_of_remaining:
  "goroutine_at s k = Some g \<Longrightarrow>
     \<exists>env. prefix (trace_of k sched s) (remaining g env)
        \<and> (goroutine_at (run sched s) k = Some Finished \<longrightarrow>
             trace_of k sched s = remaining g env)"
proof (induction sched arbitrary: s g)
  case Nil
  then show ?case by auto
next
  case (Cons a sched)
  show ?case
  proof (cases "step a s")
    case None
    with Cons.IH [OF Cons.prems] show ?thesis by simp
  next
    case (Some s')
    from worker_step [OF Some Cons.prems] obtain g' where
      g': "goroutine_at s' k = Some g'"
      and r: "\<And>env'. \<exists>env. remaining g env = worker_effects k a s @ remaining g' env'"
      by blast
    from Cons.IH [OF g'] obtain env' where
      p: "prefix (trace_of k sched s') (remaining g' env')"
      and f: "goroutine_at (run sched s') k = Some Finished \<longrightarrow>
             trace_of k sched s' = remaining g' env'"
      by blast
    from r [of env'] obtain env where
      "remaining g env = worker_effects k a s @ remaining g' env'"
      by blast
    with p f Some have "prefix (trace_of k (a # sched) s) (remaining g env)
        \<and> (goroutine_at (run (a # sched) s) k = Some Finished \<longrightarrow>
             trace_of k (a # sched) s = remaining g env)"
      by simp
    then show ?thesis by blast
  qed
qed

lemma worker_in_session:
  assumes "k < length replicas"
  shows "\<exists>env. prefix (trace_of k sched (DistributedQuery_init q replicas)) (worker env)
       \<and> (goroutine_at (run sched (DistributedQuery_init q replicas)) k = Some Finished \<longrightarrow>
            trace_of k sched (DistributedQuery_init q replicas) = worker env)"
proof -
  from assms have "goroutine_at (DistributedQuery_init q replicas) k = Some (LoopHead 0)"
    by (simp add: goroutine_at_def DistributedQuery_init_def)
  from trace_of_remaining [OF this, of sched] show ?thesis
    by (simp add: worker_def)
qed

section \<open>The dispatcher\<close>

lemmas session_defs =
  DistributedQuery_init_def step_def goroutine_at_def become_def conclude_def maxAttempts_def

text \<open>
  C1. When a response without an error is the first case of the select that is not a
  response carrying an error, the loop of the collector returns the message of that
  response with a nil error, and the last thing it does before it returns is to cancel the
  context (it has not cancelled it before). In the call as a whole: when the caller receives
  such a response, it returns the message, and from then on the context is cancelled
  whatever the goroutines do, so that every worker that checks it stops.
\<close>

theorem first_success_wins:
  "((\<forall>c \<in> set pre. discarded c) \<and> Err resp = None \<longrightarrow>
      collector (pre @ Recv resp # rest) =
        (fst (collector pre)
           @ [Printf (''Success from %s: %s'' @ [CHR 0x0A]) [Host resp, Message resp], Cancel],
         Some (Message resp, None))
      \<and> Cancel \<notin> set (fst (collector pre)))
   \<and> (result s = None \<and> \<not> panicked s \<and> resCh s = resp # rs \<and> Err resp = None \<longrightarrow>
        (\<exists>s'. step Select_resCh s = Some s' \<and> result s' = Some (Message resp, None)
           \<and> (\<forall>sched. ctx_err (run sched s') \<noteq> None)))"
proof -
  have a: "collector (pre @ Recv resp # rest) =
        (fst (collector pre)
           @ [Printf (''Success from %s: %s'' @ [CHR 0x0A]) [Host resp, Message resp], Cancel],
         Some (Message resp, None))
      \<and> Cancel \<notin> set (fst (collector pre))"
    if "\<forall>c \<in> set pre. discarded c" "Err resp = None"
  proof -
    from that(2) have "\<not> discarded (Recv resp)" by (simp add: discarded_def)
    from collector_at_first_return [OF that(1) this, of rest] collector_skip [OF that(1), of "[]"]
      that(2)
    show ?thesis by (cases "collector (pre @ Recv resp # rest)") simp
  qed
  have b: "\<exists>s'. step Select_resCh s = Some s' \<and> result s' = Some (Message resp, None)
           \<and> (\<forall>sched. ctx_err (run sched s') \<noteq> None)"
    if "result s = None" "\<not> panicked s" "resCh s = resp # rs" "Err resp = None"
  proof -
    let ?s' = "conclude (on_select (Recv resp)) (s\<lparr>resCh := rs\<rparr>)"
    from that have "step Select_resCh s = Some ?s'" by (simp add: step_Select_resCh_Cons)
    moreover from that(4) have "result ?s' = Some (Message resp, None)" by simp
    moreover from that(4) have "ctx_err ?s' \<noteq> None" by simp
    then have "\<forall>sched. ctx_err (run sched ?s') \<noteq> None" by (simp add: ctx_err_stays)
    ultimately show ?thesis by blast
  qed
  from a b show ?thesis by blast
qed

theorem first_success_wins_witness:
  "discarded (Recv not_found_response) \<and> Err success_response = None
   \<and> collector [Recv not_found_response, Recv success_response, RecvClosed] =
       ([Printf (''Result from %s: %s'' @ [CHR 0x0A]) ['''', ''not found''],
         Printf (''Success from %s: %s'' @ [CHR 0x0A]) ['''', ''result from Replica 2 (ok)''],
         Cancel],
        Some (''result from Replica 2 (ok)'', None))
   \<and> result scenario4_second_answered = None \<and> \<not> panicked scenario4_second_answered
   \<and> resCh scenario4_second_answered = [success_response]
   \<and> (\<exists>s'. step Select_resCh scenario4_second_answered = Some s'
         \<and> result s' = Some (''result from Replica 2 (ok)'', None)
         \<and> (\<forall>sched. ctx_err (run sched s') \<noteq> None))"
proof -
  have s: "result scenario4_second_answered = None \<and> \<not> panicked scenario4_second_answered
      \<and> resCh scenario4_second_answered = [success_response] \<and> Err success_response = None"
    by (simp add: scenario4_second_answered_def scenario4_def session_defs success_response_def)
  have d: "(\<forall>c \<in> set [Recv not_found_response]. discarded c)"
    by (simp add: discarded_def not_found_response_def)
  from s d first_success_wins [of "[Recv not_found_response]" success_response "[RecvClosed]"
      scenario4_second_answered "[]"]
  show ?thesis
    by (simp add: success_response_def not_found_response_def discarded_def)
qed

text \<open>
  C2, as the code has it. The loop of the collector returns one of three results and
  no other: a message with a nil error, the all-failed error, or the timed-out error. What
  decides is the case its select takes: it returns all-failed exactly when its select
  takes the receive on the closed channel after nothing but responses carrying an error;
  timed-out exactly when its select takes \<^verbatim>\<open>ctx.Done()\<close> after nothing but
  such responses; a success exactly when a response without an error comes after nothing
  but such responses. The two errors differ. In the call as a whole, after every schedule:
  what the caller has done and returned is what this loop does on the cases taken; an
  all-failed result means the channel is closed and every worker has finished; a timed-out
  result means the deadline has passed; a result once returned never changes; and a call
  that has not returned returns timed-out once the deadline passes and the select takes
  it.
\<close>

theorem dispatch_returns_one_of_three:
  "(snd (collector cs) = Some res \<longrightarrow>
      (\<exists>m. res = (m, None)) \<or> res = ('''', Some errAllFailed) \<or> res = ('''', Some errTimedOut))
   \<and> (snd (collector cs) = Some ('''', Some errAllFailed) \<longleftrightarrow>
        (\<exists>pre rest. cs = pre @ RecvClosed # rest \<and> (\<forall>c \<in> set pre. discarded c)))
   \<and> (snd (collector cs) = Some ('''', Some errTimedOut) \<longleftrightarrow>
        (\<exists>pre rest. cs = pre @ Done # rest \<and> (\<forall>c \<in> set pre. discarded c)))
   \<and> ((\<exists>m. snd (collector cs) = Some (m, None)) \<longleftrightarrow>
        (\<exists>pre resp rest. cs = pre @ Recv resp # rest \<and> Err resp = None
           \<and> (\<forall>c \<in> set pre. discarded c)))
   \<and> errAllFailed \<noteq> errTimedOut
   \<and> (\<exists>taken. collector taken =
          (caller_effects (run sched (DistributedQuery_init q replicas)),
           result (run sched (DistributedQuery_init q replicas))))
   \<and> (result (run sched (DistributedQuery_init q replicas)) = Some ('''', Some errAllFailed) \<longrightarrow>
        closed (run sched (DistributedQuery_init q replicas))
        \<and> unfinished (run sched (DistributedQuery_init q replicas)) = 0)
   \<and> (result (run sched (DistributedQuery_init q replicas)) = Some ('''', Some errTimedOut) \<longrightarrow>
        ctx_err (run sched (DistributedQuery_init q replicas)) = Some DeadlineExceeded)
   \<and> (result s = Some res \<longrightarrow> result (run sched s) = Some res)
   \<and> (result s = None \<and> \<not> panicked s \<longrightarrow>
        result (run [Deadline, Select_Done] s) = Some ('''', Some errTimedOut))"
proof -
  have kinds: "(\<exists>m. res = (m, None)) \<or> res = ('''', Some errAllFailed)
      \<or> res = ('''', Some errTimedOut)" if "snd (collector cs) = Some res"
    using collector_first_return [OF that] on_select_kinds by blast
  have closed: "snd (collector cs) = Some ('''', Some errAllFailed) \<longleftrightarrow>
        (\<exists>pre rest. cs = pre @ RecvClosed # rest \<and> (\<forall>c \<in> set pre. discarded c))"
  proof
    assume "snd (collector cs) = Some ('''', Some errAllFailed)"
    from collector_first_return [OF this] obtain pre c rest where
      c: "cs = pre @ c # rest" "\<forall>c \<in> set pre. discarded c"
      "snd (on_select c) = Some ('''', Some errAllFailed)"
      by blast
    from on_select_kinds [OF c(3)] have "c = RecvClosed"
      by (auto simp: errAllFailed_def errTimedOut_def)
    with c show "\<exists>pre rest. cs = pre @ RecvClosed # rest \<and> (\<forall>c \<in> set pre. discarded c)"
      by blast
  next
    assume "\<exists>pre rest. cs = pre @ RecvClosed # rest \<and> (\<forall>c \<in> set pre. discarded c)"
    then obtain pre rest where "cs = pre @ RecvClosed # rest" "\<forall>c \<in> set pre. discarded c"
      by blast
    then show "snd (collector cs) = Some ('''', Some errAllFailed)"
      using collector_at_first_return [of pre RecvClosed rest] by (simp add: discarded_def)
  qed
  have timed: "snd (collector cs) = Some ('''', Some errTimedOut) \<longleftrightarrow>
        (\<exists>pre rest. cs = pre @ Done # rest \<and> (\<forall>c \<in> set pre. discarded c))"
  proof
    assume "snd (collector cs) = Some ('''', Some errTimedOut)"
    from collector_first_return [OF this] obtain pre c rest where
      c: "cs = pre @ c # rest" "\<forall>c \<in> set pre. discarded c"
      "snd (on_select c) = Some ('''', Some errTimedOut)"
      by blast
    from on_select_kinds [OF c(3)] have "c = Done"
      by (auto simp: errAllFailed_def errTimedOut_def)
    with c show "\<exists>pre rest. cs = pre @ Done # rest \<and> (\<forall>c \<in> set pre. discarded c)"
      by blast
  next
    assume "\<exists>pre rest. cs = pre @ Done # rest \<and> (\<forall>c \<in> set pre. discarded c)"
    then obtain pre rest where "cs = pre @ Done # rest" "\<forall>c \<in> set pre. discarded c"
      by blast
    then show "snd (collector cs) = Some ('''', Some errTimedOut)"
      using collector_at_first_return [of pre Done rest] by (simp add: discarded_def)
  qed
  have success: "(\<exists>m. snd (collector cs) = Some (m, None)) \<longleftrightarrow>
        (\<exists>pre resp rest. cs = pre @ Recv resp # rest \<and> Err resp = None
           \<and> (\<forall>c \<in> set pre. discarded c))"
  proof
    assume "\<exists>m. snd (collector cs) = Some (m, None)"
    then obtain m where "snd (collector cs) = Some (m, None)" by blast
    from collector_first_return [OF this] obtain pre c rest where
      c: "cs = pre @ c # rest" "\<forall>c \<in> set pre. discarded c"
      "snd (on_select c) = Some (m, None)"
      by blast
    from on_select_kinds [OF c(3)] obtain resp where "c = Recv resp" "Err resp = None"
      by auto
    with c show "\<exists>pre resp rest. cs = pre @ Recv resp # rest \<and> Err resp = None
           \<and> (\<forall>c \<in> set pre. discarded c)"
      by blast
  next
    assume "\<exists>pre resp rest. cs = pre @ Recv resp # rest \<and> Err resp = None
           \<and> (\<forall>c \<in> set pre. discarded c)"
    then obtain pre resp rest where "cs = pre @ Recv resp # rest" "Err resp = None"
      "\<forall>c \<in> set pre. discarded c"
      by blast
    then show "\<exists>m. snd (collector cs) = Some (m, None)"
      using collector_at_first_return [of pre "Recv resp" rest] by (simp add: discarded_def)
  qed
  have differ: "errAllFailed \<noteq> errTimedOut"
    by (simp add: errAllFailed_def errTimedOut_def)
  let ?t = "run sched (DistributedQuery_init q replicas)"
  have "follows_collector ?t"
    by (rule run_invariant [where I = follows_collector])
       (auto intro: follows_collector_step follows_collector_init)
  then have follows: "\<exists>taken. collector taken = (caller_effects ?t, result ?t)"
    by (simp add: follows_collector_def)
  have failed: "closed ?t \<and> unfinished ?t = 0" if "result ?t = Some ('''', Some errAllFailed)"
    using that verdict_inv_run [of sched q replicas] wait_group_inv_run [of sched q replicas]
    by (simp add: verdict_inv_def wait_group_inv_def)
  have late: "ctx_err ?t = Some DeadlineExceeded" if "result ?t = Some ('''', Some errTimedOut)"
    using that verdict_inv_run [of sched q replicas]
    by (simp add: verdict_inv_def)
  have once: "result (run sched s) = Some res" if "result s = Some res"
    using that by (rule result_stays)
  have deadline: "result (run [Deadline, Select_Done] s) = Some ('''', Some errTimedOut)"
    if "result s = None" "\<not> panicked s"
    using that by (cases "ctx_err s") (simp_all add: step_def)
  from kinds closed timed success differ follows failed late once deadline
  show ?thesis by blast
qed

theorem dispatch_returns_one_of_three_witness:
  "snd (collector [Recv not_found_response, RecvClosed]) = Some ('''', Some errAllFailed)
   \<and> discarded (Recv not_found_response)
   \<and> result (run (lone_worker_run @ [Close, Select_resCh, Select_resCh]) lone_replica)
       = Some ('''', Some errAllFailed)
   \<and> closed (run (lone_worker_run @ [Close, Select_resCh, Select_resCh]) lone_replica)
   \<and> unfinished (run (lone_worker_run @ [Close, Select_resCh, Select_resCh]) lone_replica) = 0
   \<and> result lone_replica = None \<and> \<not> panicked lone_replica
   \<and> result (run [Deadline, Select_Done] lone_replica) = Some ('''', Some errTimedOut)"
proof -
  have a: "snd (collector [Recv not_found_response, RecvClosed]) = Some ('''', Some errAllFailed)
      \<and> discarded (Recv not_found_response)"
    by (simp add: not_found_response_def discarded_def)
  have b: "result (run (lone_worker_run @ [Close, Select_resCh, Select_resCh]) lone_replica)
       = Some ('''', Some errAllFailed)"
    by (simp add: lone_worker_run_def lone_replica_def session_defs)
  have c: "result lone_replica = None \<and> \<not> panicked lone_replica"
    by (simp add: lone_replica_def session_defs)
  from a b c
    dispatch_returns_one_of_three [of "[Recv not_found_response, RecvClosed]"
      "('''', Some errAllFailed)" "lone_worker_run @ [Close, Select_resCh, Select_resCh]"
      "''SELECT * FROM users WHERE id=123''" "[''Replica 1 (not found)'']" lone_replica]
  show ?thesis
    by (simp add: lone_replica_def)
qed

text \<open>
  The claim C2 as it is written lets the state decide: timed-out exactly when the
  deadline passes before a success is observed, all-failed exactly when the channel is
  closed with no success observed. One slow replica: the deadline has passed, the channel
  is closed and the caller has observed nothing; the receive then returns all-failed, and
  \<^verbatim>\<open>ctx.Done()\<close> returns timed-out on the closed channel. And when the replica
  has answered and the deadline passes before the caller receives the answer, the receive
  returns the success.
\<close>

theorem deadline_or_close_alone_does_not_decide:
  "ctx_err (run deadline_then_closed scenario3) = Some DeadlineExceeded
   \<and> closed (run deadline_then_closed scenario3)
   \<and> result (run deadline_then_closed scenario3) = None
   \<and> caller_effects (run deadline_then_closed scenario3) = []
   \<and> result (run (deadline_then_closed @ [Select_resCh]) scenario3)
        = Some ('''', Some errAllFailed)
   \<and> result (run (deadline_then_closed @ [Select_Done]) scenario3)
        = Some ('''', Some errTimedOut)
   \<and> ctx_err (run answer_then_deadline scenario3) = Some DeadlineExceeded
   \<and> result (run answer_then_deadline scenario3) = None
   \<and> caller_effects (run answer_then_deadline scenario3) = []
   \<and> result (run (answer_then_deadline @ [Select_resCh]) scenario3)
        = Some (''result from Replica 1'', None)"
  by (simp add: deadline_then_closed_def answer_then_deadline_def scenario3_def session_defs
        DeadlineExceeded_def)

text \<open>
  C5. When the collector receives a response whose error is the not-found sentinel
  (alone or wrapped), the iteration prints and returns nothing. The result of the loop is
  the same as if that response had never come, wherever it comes; in particular a later
  response without an error is still returned as the result. In the call as a whole the
  caller, receiving it, takes it out of the channel and leaves the goroutines of the
  replicas, the context and its own result as they are: it starts no retry. The worker
  that sent it does nothing after the send but signal the wait group.
\<close>

theorem not_found_is_discarded:
  assumes "Err nf = Some e" and "errors_Is e ErrNotFound"
  shows "on_select (Recv nf) =
           ([Printf (''Result from %s: %s'' @ [CHR 0x0A]) [Host nf, Error e]], None)
       \<and> snd (collector (pre @ Recv nf # rest)) = snd (collector (pre @ rest))
       \<and> (Err ok = None \<and> (\<forall>c \<in> set mid. discarded c) \<longrightarrow>
            snd (collector (Recv nf # mid @ Recv ok # rest)) = Some (Message ok, None))
       \<and> (result s = None \<and> \<not> panicked s \<and> resCh s = nf # rs \<longrightarrow>
            (\<exists>s'. step Select_resCh s = Some s' \<and> result s' = None
               \<and> workers s' = workers s \<and> ctx_err s' = ctx_err s \<and> resCh s' = rs))
       \<and> (worker env = wpre @ Send nf # wpost \<longrightarrow> wpost = [WgDone])"
proof -
  from assms have sel: "on_select (Recv nf) =
      ([Printf (''Result from %s: %s'' @ [CHR 0x0A]) [Host nf, Error e]], None)"
    by simp
  from assms have d: "discarded (Recv nf)" by (simp add: discarded_def)
  have skip: "snd (collector (pre @ Recv nf # rest)) = snd (collector (pre @ rest))"
  proof (induction pre)
    case Nil
    from d show ?case by (simp add: collector_Cons_discarded del: collector.simps)
  next
    case (Cons c pre)
    then show ?case
      by (cases "discarded c")
         (simp_all add: collector_Cons_discarded collector_Cons_returns del: collector.simps)
  qed
  have later: "snd (collector (Recv nf # mid @ Recv ok # rest)) = Some (Message ok, None)"
    if "Err ok = None" "\<forall>c \<in> set mid. discarded c"
  proof -
    from that d have "\<forall>c \<in> set (Recv nf # mid). discarded c" "\<not> discarded (Recv ok)"
      by (simp_all add: discarded_def)
    from collector_at_first_return [OF this, of rest] that(1) show ?thesis by simp
  qed
  have st: "\<exists>s'. step Select_resCh s = Some s' \<and> result s' = None
               \<and> workers s' = workers s \<and> ctx_err s' = ctx_err s \<and> resCh s' = rs"
    if "result s = None" "\<not> panicked s" "resCh s = nf # rs"
    using that sel by (simp add: step_def del: on_select.simps)
  have w: "wpost = [WgDone]" if "worker env = wpre @ Send nf # wpost"
  proof -
    from that obtain post' where "wpost = post' @ [WgDone]"
      "worker_loop 0 env = wpre @ Send nf # post'"
      using worker_split [of env wpre "Send nf" wpost] by auto
    with worker_loop_send [of 0 env wpre nf post'] show ?thesis by simp
  qed
  from sel skip later st w show ?thesis by blast
qed

theorem not_found_is_discarded_witness:
  "Err not_found_response = Some ErrNotFound \<and> errors_Is ErrNotFound ErrNotFound
   \<and> Err success_response = None
   \<and> snd (collector [Recv not_found_response, Recv success_response, Done])
       = Some (''result from Replica 2 (ok)'', None)
   \<and> result scenario4_both_answered = None \<and> \<not> panicked scenario4_both_answered
   \<and> resCh scenario4_both_answered = [not_found_response, success_response]
   \<and> (\<exists>s'. step Select_resCh scenario4_both_answered = Some s' \<and> result s' = None
         \<and> workers s' = [Returning, Returning] \<and> ctx_err s' = None
         \<and> resCh s' = [success_response])"
proof -
  have a: "Err not_found_response = Some ErrNotFound \<and> errors_Is ErrNotFound ErrNotFound
      \<and> Err success_response = None"
    by (simp add: not_found_response_def success_response_def)
  have b: "result scenario4_both_answered = None \<and> \<not> panicked scenario4_both_answered
      \<and> resCh scenario4_both_answered = [not_found_response, success_response]
      \<and> workers scenario4_both_answered = [Returning, Returning]
      \<and> ctx_err scenario4_both_answered = None"
    by (simp add: scenario4_both_answered_def scenario4_def session_defs success_response_def
          not_found_response_def)
  from a b
    not_found_is_discarded [of not_found_response ErrNotFound "[]" "[Recv success_response, Done]"
      success_response "[]" scenario4_both_answered "[success_response]"]
  show ?thesis
    by (simp add: success_response_def)
qed



text \<open>
  C7, as the code has it. The entry point takes the query and the replicas and nothing
  else; the duration given to \<^verbatim>\<open>context.WithTimeout\<close> is the package constant
  \<^verbatim>\<open>totalTimeout\<close>, 2 s, in every call and at every moment of the call. That
  duration bounds the call: when its timer fires in a call that has not returned, and the
  select of the caller takes \<^verbatim>\<open>ctx.Done()\<close>, the call returns timed-out.
\<close>

theorem timeout_is_the_constant:
  "timeout (run sched (DistributedQuery_init q replicas)) = totalTimeout
   \<and> totalTimeout = 2 * Second \<and> 2 * Second = 2000000000
   \<and> (result s = None \<and> \<not> panicked s \<and> ctx_err s = None \<longrightarrow>
        result (run [Deadline, Select_Done] s) = Some ('''', Some errTimedOut)
        \<and> ctx_err (run [Deadline, Select_Done] s) = Some DeadlineExceeded)"
  by (simp add: timeout_run DistributedQuery_init_def totalTimeout_def Second_def
        Millisecond_def step_def)

theorem timeout_is_the_constant_witness:
  "result scenario4 = None \<and> \<not> panicked scenario4 \<and> ctx_err scenario4 = None
   \<and> timeout scenario4 = 2 * Second
   \<and> result (run [Deadline, Select_Done] scenario4) = Some ('''', Some errTimedOut)
   \<and> ctx_err (run [Deadline, Select_Done] scenario4) = Some DeadlineExceeded"
proof -
  have a: "result scenario4 = None \<and> \<not> panicked scenario4 \<and> ctx_err scenario4 = None"
    by (simp add: scenario4_def session_defs)
  from a timeout_is_the_constant [of "[]" "''SELECT * FROM users WHERE id=123''"
      "[''Replica 1 (not found)'', ''Replica 2 (ok)'']" scenario4]
  show ?thesis by (simp add: scenario4_def)
qed

text \<open>
  The claim C7 as it is written gives the entry point a timeout parameter. The third
  scenario of \<^verbatim>\<open>main\<close> calls it with the query and two slow replicas, and the
  duration is 2 s; no query and no replicas give another one.
\<close>

theorem timeout_is_not_a_parameter:
  "timeout (DistributedQuery_init ''SELECT * FROM users''
      [''Replica 1 (very slow)'', ''Replica 2 (very slow)'']) = 2 * Second
   \<and> \<not> (\<exists>q (replicas :: string list). timeout (DistributedQuery_init q replicas) \<noteq> 2 * Second)"
  by (simp add: DistributedQuery_init_def totalTimeout_def)

text \<open>
  C9. An error that wraps the not-found sentinel is handled as the sentinel is, by the
  worker and by the collector: the reply ends the worker's loop with one send of the
  response that carries it (in the loop alone and in the call as a whole), and the
  collector, receiving that response, prints and goes on without a result, as it does
  for the sentinel itself.
\<close>

theorem not_found_matched_by_chain:
  assumes "errors_Is err ErrNotFound"
  shows "terminal (Some err)
       \<and> (i < maxAttempts \<and> \<not> ctx_cancelled (env i) \<and> reply (env i) = (m, Some err) \<longrightarrow>
            worker_loop i env =
              [CtxErrCheck False, DoQuery i, Send \<lparr>Message = m, Err = Some err, Host = ''''\<rparr>])
       \<and> (goroutine_at s k = Some (InQuery i) \<and> \<not> panicked s \<and> \<not> closed s
            \<and> length (resCh s) < capacity s \<longrightarrow>
            step (Reply k m (Some err)) s =
              Some (become k Returning
                (s\<lparr>resCh := resCh s @ [\<lparr>Message = m, Err = Some err, Host = ''''\<rparr>]\<rparr>)))
       \<and> on_select (Recv \<lparr>Message = m, Err = Some err, Host = h\<rparr>) =
            ([Printf (''Result from %s: %s'' @ [CHR 0x0A]) [h, Error err]], None)
       \<and> snd (on_select (Recv \<lparr>Message = m, Err = Some err, Host = h\<rparr>)) =
            snd (on_select (Recv \<lparr>Message = m, Err = Some ErrNotFound, Host = h\<rparr>))"
  using assms by (auto simp: worker_loop_step [of i] step_def)

theorem not_found_matched_by_chain_witness:
  "errors_Is wrapped_not_found ErrNotFound \<and> wrapped_not_found \<noteq> ErrNotFound
   \<and> \<not> errors_Is (ErrorString ''not found'') ErrNotFound
   \<and> worker_loop 0 wrapping_replica =
       [CtxErrCheck False, DoQuery 0,
        Send \<lparr>Message = '''', Err = Some wrapped_not_found, Host = ''''\<rparr>]
   \<and> on_select (Recv \<lparr>Message = '''', Err = Some wrapped_not_found, Host = ''''\<rparr>) =
       ([Printf (''Result from %s: %s'' @ [CHR 0x0A]) ['''', ''replica 2: not found'']], None)"
  using not_found_matched_by_chain [of wrapped_not_found 0 wrapping_replica "''''"
      lone_replica 0 "''''"]
  by (simp add: wrapped_not_found_def wrapping_replica_def maxAttempts_def)

text \<open>
  C10. Every run of a worker signals the wait group exactly once, as the last thing it
  does. In the call as a whole, after every schedule: the counter of the wait group is
  the number of workers that have not signalled; the channel is closed only when all of them
  have; no send has hit the closed channel. Once all workers have signalled and the caller
  has not returned, the janitor can close the channel (unless it has), and then the receive
  of the caller is never blocked: after the close, one receive for each buffered response
  and one more, the caller has returned.
\<close>

theorem completion_is_signalled:
  assumes "s = run sched (DistributedQuery_init q replicas)"
  shows "length (filter (\<lambda>e. e = WgDone) (worker env)) = 1 \<and> last (worker env) = WgDone
       \<and> wg s = int (unfinished s) \<and> (closed s \<longrightarrow> unfinished s = 0) \<and> \<not> panicked s
       \<and> (unfinished s = 0 \<and> result s = None \<longrightarrow>
            (closed s \<or> step Close s = Some (s\<lparr>closed := True\<rparr>))
            \<and> result (run (Close # replicate (Suc (length (resCh s))) Select_resCh) s) \<noteq> None)
       \<and> (closed s \<and> result s = None \<longrightarrow> step Select_resCh s \<noteq> None)"
proof -
  have w: "length (filter (\<lambda>e. e = WgDone) (worker env)) = 1 \<and> last (worker env) = WgDone"
    using worker_loop_no_WgDone [of 0 env] by (auto simp: worker_def filter_empty_conv)
  have inv: "wait_group_inv s"
    unfolding assms by (rule wait_group_inv_run)
  have j: "(closed s \<or> step Close s = Some (s\<lparr>closed := True\<rparr>))
         \<and> result (run (Close # replicate (Suc (length (resCh s))) Select_resCh) s) \<noteq> None"
    if "unfinished s = 0" "result s = None"
  proof (cases "closed s")
    case True
    with inv drain [of s] show ?thesis
      by (simp add: step_def wait_group_inv_def)
  next
    case False
    with inv that have c: "step Close s = Some (s\<lparr>closed := True\<rparr>)"
      by (simp add: step_def wait_group_inv_def)
    from inv drain [of "s\<lparr>closed := True\<rparr>"]
    have "result (run (replicate (Suc (length (resCh s))) Select_resCh) (s\<lparr>closed := True\<rparr>))
        \<noteq> None"
      by (simp add: wait_group_inv_def)
    with c show ?thesis by simp
  qed
  have r: "step Select_resCh s \<noteq> None" if "closed s" "result s = None"
    using that inv by (simp add: step_def wait_group_inv_def split: list.splits)
  from w inv j r show ?thesis
    by (simp add: wait_group_inv_def)
qed

theorem completion_is_signalled_witness:
  "unfinished (run lone_worker_run lone_replica) = 0
   \<and> result (run lone_worker_run lone_replica) = None
   \<and> wg (run lone_worker_run lone_replica) = 0
   \<and> \<not> closed (run lone_worker_run lone_replica)
   \<and> resCh (run lone_worker_run lone_replica) = [not_found_response]
   \<and> result (run (Close # replicate (Suc (length (resCh (run lone_worker_run lone_replica))))
         Select_resCh) (run lone_worker_run lone_replica)) \<noteq> None
   \<and> closed (run (lone_worker_run @ [Close]) lone_replica)
   \<and> step Select_resCh (run (lone_worker_run @ [Close]) lone_replica) \<noteq> None"
proof -
  have a: "unfinished (run lone_worker_run lone_replica) = 0
      \<and> result (run lone_worker_run lone_replica) = None
      \<and> \<not> closed (run lone_worker_run lone_replica)
      \<and> resCh (run lone_worker_run lone_replica) = [not_found_response]"
    by (simp add: lone_worker_run_def lone_replica_def session_defs unfinished_def
          not_found_response_def)
  have b: "closed (run (lone_worker_run @ [Close]) lone_replica)
      \<and> result (run (lone_worker_run @ [Close]) lone_replica) = None"
    by (simp add: lone_worker_run_def lone_replica_def session_defs)
  from a b
    completion_is_signalled [of "run lone_worker_run lone_replica" lone_worker_run
      "''SELECT * FROM users WHERE id=123''" "[''Replica 1 (not found)'']" always_failing]
    completion_is_signalled [of "run (lone_worker_run @ [Close]) lone_replica"
      "lone_worker_run @ [Close]"
      "''SELECT * FROM users WHERE id=123''" "[''Replica 1 (not found)'']" always_failing]
  show ?thesis
    by (simp add: lone_replica_def del: run.simps replicate.simps)
qed

end
